theory Spec2Isabelle
  imports Complex_Main "HOL-Library.Multiset"
begin

section \<open>A day on the island: the model of simulation_with_stats.py\<close>

text \<open>
  The program is a Python simulation with one thread per passenger and per ship.
  Each thread is modelled as a sequential function on an explicit state. What a thread
  reads from outside itself (random draws, the ship's signals, the clock) is an explicit
  input of the function. Python floats are modelled as exact rationals, Python integers
  as \<open>int\<close>. The event manager, which only prints and sleeps, and the formatting of the
  console lines are left out.
\<close>

subsection \<open>Time settings\<close>

definition SECONDS_PER_HOUR :: rat where
  "SECONDS_PER_HOUR = 5"

definition SHIP_STAY_HOURS :: rat where
  "SHIP_STAY_HOURS = 8"

definition SHIP_STAY_SECONDS :: rat where
  "SHIP_STAY_SECONDS = SHIP_STAY_HOURS * SECONDS_PER_HOUR"

definition LAST_CALL_MINUTES :: rat where
  "LAST_CALL_MINUTES = 30"

definition LAST_CALL_SECONDS :: rat where
  "LAST_CALL_SECONDS = (LAST_CALL_MINUTES / 60) * SECONDS_PER_HOUR"

definition ARRIVAL_WINDOW_START :: rat where
  "ARRIVAL_WINDOW_START = 8"

definition ARRIVAL_WINDOW_END :: rat where
  "ARRIVAL_WINDOW_END = 10"

subsection \<open>Errors\<close>

text \<open>
  \<open>ValueError\<close> is what \<^verbatim>\<open>time.sleep\<close> raises on a negative length,
  \<^verbatim>\<open>random.randint\<close> on an empty range and \<^verbatim>\<open>random.choices\<close> on weights
  whose total is not positive; \<open>IndexError\<close> is what \<^verbatim>\<open>random.choices\<close> raises on an
  empty population. \<open>NotReturning\<close> stands for a thread that never returns: it blocks for
  ever on a signal that is never set, or the observations given to the model end while
  the passenger is still ashore.
\<close>

datatype error = ValueError | IndexError | NotReturning

definition and_then :: "error + 'a \<Rightarrow> ('a \<Rightarrow> error + 'b) \<Rightarrow> error + 'b" where
  "and_then m f = (case m of Inl e \<Rightarrow> Inl e | Inr x \<Rightarrow> f x)"

subsection \<open>Strategy pattern: the transport modes\<close>

text \<open>
  The three subclasses of \<^verbatim>\<open>MovementStrategy\<close>, and the dictionary
  \<^verbatim>\<open>TRANSPORT_STRATEGIES\<close>, whose keys are exactly "walk", "bus" and "taxi".
\<close>

datatype strategy = WalkStrategy | BusStrategy | TaxiStrategy

datatype mode = walk | bus | taxi

fun travel_time :: "strategy \<Rightarrow> rat \<Rightarrow> rat" where
  "travel_time WalkStrategy d = d / 1"
| "travel_time BusStrategy d = d / 3"
| "travel_time TaxiStrategy d = d / 4"

fun TRANSPORT_STRATEGIES :: "mode \<Rightarrow> strategy" where
  "TRANSPORT_STRATEGIES walk = WalkStrategy"
| "TRANSPORT_STRATEGIES bus = BusStrategy"
| "TRANSPORT_STRATEGIES taxi = TaxiStrategy"

subsection \<open>Location\<close>

text \<open>
  The lock of a location makes each of its two methods atomic: a method is a function
  from the location before the call to the location after it. The console line a method
  prints is added by the caller's model (see \<open>enter_location\<close> below).
\<close>

record location =
  name :: string
  max_capacity :: int
  base_duration :: rat
  distance :: rat
  count :: int

definition Location_init :: "string \<Rightarrow> int \<Rightarrow> rat \<Rightarrow> rat \<Rightarrow> location" where
  "Location_init nm cap base_hours d =
     \<lparr>name = nm, max_capacity = cap, base_duration = base_hours * SECONDS_PER_HOUR,
      distance = d, count = 0\<rparr>"

definition try_enter :: "location \<Rightarrow> int \<Rightarrow> bool \<times> location" where
  "try_enter self pid =
     (if count self < max_capacity self
      then (True, self\<lparr>count := count self + 1\<rparr>)
      else (False, self))"

definition leave :: "location \<Rightarrow> int \<Rightarrow> location" where
  "leave self pid = self\<lparr>count := count self - 1\<rparr>"

text \<open>
  The calls that the threads make on one location, in the order in which its lock
  serialises them, and the location after each call.
\<close>

datatype call = TryEnter int | Leave int

fun apply_call :: "location \<Rightarrow> call \<Rightarrow> location" where
  "apply_call l (TryEnter pid) = snd (try_enter l pid)"
| "apply_call l (Leave pid) = leave l pid"

fun occupancies :: "location \<Rightarrow> call list \<Rightarrow> location list" where
  "occupancies l [] = []"
| "occupancies l (c # cs) = apply_call l c # occupancies (apply_call l c) cs"

text \<open>
  The protocol of the callers: \<open>paired l holders cs\<close> holds when every \<open>Leave pid\<close> of
  \<open>cs\<close> is made by a passenger who holds a slot, that is, who has had a successful
  \<open>try_enter\<close> that no earlier \<open>leave\<close> of his has answered. \<open>holders\<close> lists the
  passengers inside, one entry per slot held.
\<close>

fun paired :: "location \<Rightarrow> int list \<Rightarrow> call list \<Rightarrow> bool" where
  "paired l holders [] = True"
| "paired l holders (TryEnter pid # cs) =
     paired (snd (try_enter l pid))
       (if fst (try_enter l pid) then pid # holders else holders) cs"
| "paired l holders (Leave pid # cs) =
     (pid \<in> set holders \<and> paired (leave l pid) (remove1 pid holders) cs)"

subsection \<open>Ship\<close>

datatype signal = Arrived | LastCall | Departed

record CruiseShip =
  ship_id :: int
  arrival_offset :: rat
  arrived_event :: bool
  last_call_event :: bool
  departed_event :: bool
  observers :: "int list"

definition CruiseShip_init :: "int \<Rightarrow> rat \<Rightarrow> CruiseShip" where
  "CruiseShip_init sid arrival_hour =
     \<lparr>ship_id = sid,
      arrival_offset = (arrival_hour - ARRIVAL_WINDOW_START) * SECONDS_PER_HOUR,
      arrived_event = False, last_call_event = False, departed_event = False,
      observers = []\<rparr>"

text \<open>
  The ship's thread: its clock (seconds since the thread started; a sleep of \<open>d\<close>
  advances it by \<open>d\<close>), the ship object, and the log of the signals fired. A
  \<^verbatim>\<open>threading.Event\<close> is a flag; \<^verbatim>\<open>set()\<close> makes it true, and the log gets an
  entry, with the time, when that call turns the flag from false to true.
\<close>

record ship_thread =
  clock :: rat
  vessel :: CruiseShip
  fired :: "(rat \<times> signal) list"

fun is_set :: "signal \<Rightarrow> CruiseShip \<Rightarrow> bool" where
  "is_set Arrived c = arrived_event c"
| "is_set LastCall c = last_call_event c"
| "is_set Departed c = departed_event c"

fun set_flag :: "signal \<Rightarrow> CruiseShip \<Rightarrow> CruiseShip" where
  "set_flag Arrived c = c\<lparr>arrived_event := True\<rparr>"
| "set_flag LastCall c = c\<lparr>last_call_event := True\<rparr>"
| "set_flag Departed c = c\<lparr>departed_event := True\<rparr>"

definition set_event :: "signal \<Rightarrow> ship_thread \<Rightarrow> ship_thread" where
  "set_event sg t =
     t\<lparr>vessel := set_flag sg (vessel t),
       fired := fired t @ (if is_set sg (vessel t) then [] else [(clock t, sg)])\<rparr>"

definition ship_sleep :: "rat \<Rightarrow> ship_thread \<Rightarrow> error + ship_thread" where
  "ship_sleep d t = (if d < 0 then Inl ValueError else Inr (t\<lparr>clock := clock t + d\<rparr>))"

definition notify_last_call :: "ship_thread \<Rightarrow> ship_thread" where
  "notify_last_call t = set_event LastCall t"

definition notify_departure :: "ship_thread \<Rightarrow> ship_thread" where
  "notify_departure t = set_event Departed t"

definition CruiseShip_run :: "CruiseShip \<Rightarrow> error + ship_thread" where
  "CruiseShip_run self =
     and_then (ship_sleep (arrival_offset self) \<lparr>clock = 0, vessel = self, fired = []\<rparr>)
       (\<lambda>t. and_then (ship_sleep (SHIP_STAY_SECONDS - LAST_CALL_SECONDS) (set_event Arrived t))
         (\<lambda>t. and_then (ship_sleep LAST_CALL_SECONDS (notify_last_call t))
           (\<lambda>t. Inr (notify_departure t))))"

subsection \<open>Global state and statistics\<close>

text \<open>
  The dictionary \<^verbatim>\<open>stats\<close> has eleven fixed keys, all present from the start: a record
  with one field per key.
\<close>

record stats =
  died_cliff :: int
  died_shark :: int
  drunk :: int
  intoxicated :: int
  popup_delay :: int
  fell_asleep :: int
  lost_hiking :: int
  snorkel_delay :: int
  stranded :: int
  boarded :: int
  total_passengers :: int

definition stats_init :: stats where
  "stats_init =
     \<lparr>died_cliff = 0, died_shark = 0, drunk = 0, intoxicated = 0, popup_delay = 0,
      fell_asleep = 0, lost_hiking = 0, snorkel_delay = 0, stranded = 0, boarded = 0,
      total_passengers = 0\<rparr>"

subsection \<open>Passenger\<close>

text \<open>
  \<open>ship\<close> is \<open>None\<close> or the id of the ship the passenger is attached to;
  \<open>current_location\<close> is \<open>None\<close> or the position, in the island's list of locations, of
  the location object the field refers to.
\<close>

record passenger =
  passenger_id :: int
  ship_id :: int
  age_group :: string
  gender :: string
  strength :: int
  ship :: "int option"
  current_location :: "nat option"
  transport_strategy :: strategy
  on_board :: bool
  was_drunk :: bool
  is_dead :: bool

definition Passenger_init :: "int \<Rightarrow> int \<Rightarrow> string \<Rightarrow> string \<Rightarrow> int \<Rightarrow> passenger" where
  "Passenger_init pid sid age gen str =
     \<lparr>passenger_id = pid, ship_id = sid, age_group = age, gender = gen, strength = str,
      ship = None, current_location = None,
      transport_strategy = TRANSPORT_STRATEGIES walk,
      on_board = False, was_drunk = False, is_dead = False\<rparr>"

definition attach :: "CruiseShip \<Rightarrow> passenger \<Rightarrow> CruiseShip" where
  "attach self p = self\<lparr>observers := observers self @ [passenger_id p]\<rparr>"

definition attach_to_ship :: "passenger \<Rightarrow> CruiseShip \<Rightarrow> passenger \<times> CruiseShip" where
  "attach_to_ship self c = (self\<lparr>ship := Some (CruiseShip.ship_id c)\<rparr>, attach c self)"

text \<open>
  The factory draws the age group, the gender and the strength (an integer from 30 to
  100) at random; the three draws are arguments here.
\<close>

definition PassengerFactory_create ::
  "int \<Rightarrow> int \<Rightarrow> string \<Rightarrow> string \<Rightarrow> int \<Rightarrow> stats \<Rightarrow> passenger \<times> stats" where
  "PassengerFactory_create pid sid age gen str st =
     (Passenger_init pid sid age gen str, st\<lparr>total_passengers := total_passengers st + 1\<rparr>)"

text \<open>
  The state shared by all threads, and the state of one passenger thread: the passenger
  object, the shared state, and the trace of what the thread has done that is visible
  outside it (the console lines it printed, named by their bracketed tag; its sleeps; its
  reads of the ship's signals).
\<close>

record world =
  locations :: "location list"
  stats :: stats
  stranded_passengers :: "passenger list"
  dead_passengers :: "passenger list"

datatype tag =
  WAIT | ARRIVE | MOVE | LOC_entered | LOC_left | DEATH | INTOXICATED | DRUNK | POP_UP
  | LOST | LATE_SWIM | ASLEEP | DRUNK_DELAY | RETURN | BOARD | MISS | STRANDED

datatype event = Print tag | Sleep rat | IsSet signal bool | Wait signal

record thread =
  me :: passenger
  shared :: world
  trace :: "event list"

definition say :: "tag \<Rightarrow> thread \<Rightarrow> thread" where
  "say tg s = s\<lparr>trace := trace s @ [Print tg]\<rparr>"

definition observe :: "signal \<Rightarrow> bool \<Rightarrow> thread \<Rightarrow> thread" where
  "observe sg b s = s\<lparr>trace := trace s @ [IsSet sg b]\<rparr>"

definition sleep :: "rat \<Rightarrow> thread \<Rightarrow> error + thread" where
  "sleep d s = (if d < 0 then Inl ValueError else Inr (s\<lparr>trace := trace s @ [Sleep d]\<rparr>))"

text \<open>\<open>bump f\<close> is \<^verbatim>\<open>stats[key] += 1\<close>, with \<open>f\<close> the update of the key's field.\<close>

definition bump :: "((int \<Rightarrow> int) \<Rightarrow> stats \<Rightarrow> stats) \<Rightarrow> thread \<Rightarrow> thread" where
  "bump f s = s\<lparr>shared := (shared s)\<lparr>stats := f (\<lambda>n. n + 1) (stats (shared s))\<rparr>\<rparr>"

subsubsection \<open>What a passenger thread reads from outside\<close>

text \<open>
  One record per place of the code that reads a random number or a signal; a field is
  the value read there (it is unused when the place is not reached). For the dwell loop,
  \<open>polls\<close> lists the values of \<^verbatim>\<open>last_call_event.is_set()\<close> at the passes of the loop
  whose test \<^verbatim>\<open>time.time() < end_time\<close> succeeded; the test fails after them.
\<close>

record stay_env =
  polls :: "bool list"
  cliff_roll :: rat
  shark_roll :: rat
  intox_roll :: rat
  intox_extra :: rat
  drunk_roll :: rat
  drunk_extra :: rat
  popup_roll :: rat
  popup_extra :: rat
  lost_roll :: rat
  lost_extra :: rat
  snorkel_roll :: rat
  snorkel_extra :: rat
  asleep_roll :: rat
  asleep_extra :: rat

record return_env =
  react_roll :: rat
  react_delay :: rat
  departed_seen :: bool

record iter_env =
  departed_head :: bool
  activity_draw :: rat
  transport_draw :: mode
  stay :: stay_env
  last_call_end :: bool
  ret :: return_env

record run_env =
  arrives :: bool
  iters :: "iter_env list"

subsubsection \<open>Choosing\<close>

fun starts_with :: "string \<Rightarrow> string \<Rightarrow> bool" where
  "starts_with s [] = True"
| "starts_with [] (c # cs) = False"
| "starts_with (x # xs) (c # cs) = (x = c \<and> starts_with xs cs)"

text \<open>\<open>contains sub s\<close> is Python's \<^verbatim>\<open>sub in s\<close> on strings.\<close>

fun contains :: "string \<Rightarrow> string \<Rightarrow> bool" where
  "contains sub [] = (sub = [])"
| "contains sub (c # cs) = (starts_with (c # cs) sub \<or> contains sub cs)"

fun accumulate_from :: "int \<Rightarrow> int list \<Rightarrow> int list" where
  "accumulate_from a [] = []"
| "accumulate_from a (x # xs) = (a + x) # accumulate_from (a + x) xs"

text \<open>
  \<^verbatim>\<open>random.choices(population, weights, k=1)[0]\<close>, with \<open>u\<close> the value of the one
  \<^verbatim>\<open>random()\<close> it draws: the library takes the running sums of the weights and returns
  the element at the position where \<open>u\<close> times their total falls among the sums but the
  last (a bisection; the sums increase when the weights are positive). It raises when the
  weights are not as many as the population, when the population is empty (the last sum
  does not exist) and when the total is not positive.
\<close>

definition choices :: "'a list \<Rightarrow> int list \<Rightarrow> rat \<Rightarrow> error + 'a" where
  "choices population weights u =
     (if length weights \<noteq> length population then Inl ValueError
      else if population = [] then Inl IndexError
      else if last (accumulate_from 0 weights) \<le> 0 then Inl ValueError
      else Inr (population !
             length (takeWhile (\<lambda>c. of_int c \<le> u * of_int (last (accumulate_from 0 weights)))
                       (butlast (accumulate_from 0 weights)))))"

definition activity_weight :: "passenger \<Rightarrow> location \<Rightarrow> int" where
  "activity_weight self loc =
     (if contains ''bar'' (name loc) then (if age_group self = ''young'' then 3 else 2)
      else if contains ''beach'' (name loc) then 3
      else 1)"

text \<open>The location chosen is returned as its position in the list.\<close>

definition choose_activity :: "passenger \<Rightarrow> location list \<Rightarrow> rat \<Rightarrow> error + nat" where
  "choose_activity self locs u =
     choices [0..<length locs] (map (activity_weight self) locs) u"

definition choose_transport :: "mode \<Rightarrow> thread \<Rightarrow> thread" where
  "choose_transport choice s = s\<lparr>me := (me s)\<lparr>transport_strategy := TRANSPORT_STRATEGIES choice\<rparr>\<rparr>"

subsubsection \<open>Going to a location and staying there\<close>

text \<open>
  \<open>enter_location i\<close> is the passenger's call of \<open>try_enter\<close> on the location at
  position \<open>i\<close>, with the console line that the method prints on success, followed by
  the assignment to \<open>current_location\<close>. \<open>leave_location\<close> is the call of \<open>leave\<close>
  on the current location, with its console line, followed by the reset of the field.
\<close>

definition enter_location :: "nat \<Rightarrow> thread \<Rightarrow> thread" where
  "enter_location i s =
     (if fst (try_enter (locations (shared s) ! i) (passenger_id (me s)))
      then (say LOC_entered
              (s\<lparr>shared := (shared s)\<lparr>locations :=
                    (locations (shared s))
                      [i := snd (try_enter (locations (shared s) ! i) (passenger_id (me s)))]\<rparr>\<rparr>))
             \<lparr>me := (me s)\<lparr>current_location := Some i\<rparr>\<rparr>
      else s)"

definition leave_location :: "nat \<Rightarrow> thread \<Rightarrow> thread" where
  "leave_location i s =
     (say LOC_left
        (s\<lparr>shared := (shared s)\<lparr>locations :=
              (locations (shared s))
                [i := leave (locations (shared s) ! i) (passenger_id (me s))]\<rparr>\<rparr>))
       \<lparr>me := (me s)\<lparr>current_location := None\<rparr>\<rparr>"

definition go_to_location :: "nat \<Rightarrow> mode \<Rightarrow> thread \<Rightarrow> error + thread" where
  "go_to_location i choice s =
     (if is_dead (me s) then Inr s
      else and_then
             (sleep (travel_time (transport_strategy (me (choose_transport choice s)))
                       (distance (locations (shared s) ! i)))
                (say MOVE (choose_transport choice s)))
             (\<lambda>s. Inr (enter_location i s)))"

text \<open>
  The dwell loop. The result says whether the method returned from inside the loop
  (True) or the loop ended (False).
\<close>

fun dwell :: "bool list \<Rightarrow> thread \<Rightarrow> error + bool \<times> thread" where
  "dwell [] s = Inr (False, s)"
| "dwell (b # bs) s =
     (if is_dead (me s) then Inr (True, s)
      else if b then Inr (False, observe LastCall b s)
      else and_then (sleep (1/2) (observe LastCall b s)) (dwell bs))"

definition die :: "((int \<Rightarrow> int) \<Rightarrow> stats \<Rightarrow> stats) \<Rightarrow> thread \<Rightarrow> thread" where
  "die cause s =
     say DEATH (bump cause
       (s\<lparr>me := (me s)\<lparr>is_dead := True\<rparr>,
          shared := (shared s)\<lparr>dead_passengers :=
            dead_passengers (shared s) @ [(me s)\<lparr>is_dead := True\<rparr>]\<rparr>\<rparr>))"

text \<open>
  One of the rare delays: when the location is of the kind and the roll is below the
  probability, the counter goes up, the line is printed and the thread sleeps. The bar's
  delay (\<open>got_drunk\<close>) also sets \<open>was_drunk\<close> after the sleep.
\<close>

definition incident ::
  "bool \<Rightarrow> rat \<Rightarrow> rat \<Rightarrow> rat \<Rightarrow> ((int \<Rightarrow> int) \<Rightarrow> stats \<Rightarrow> stats) \<Rightarrow> tag \<Rightarrow> thread \<Rightarrow> error + thread" where
  "incident here roll prob extra key tg s =
     (if here \<and> roll < prob then sleep extra (say tg (bump key s)) else Inr s)"

definition got_drunk :: "string \<Rightarrow> stay_env \<Rightarrow> thread \<Rightarrow> error + thread" where
  "got_drunk loc_name e s =
     (if contains ''bar'' loc_name \<and> drunk_roll e < 7/100
      then and_then (sleep (drunk_extra e) (say DRUNK (bump drunk_update s)))
             (\<lambda>s. Inr (s\<lparr>me := (me s)\<lparr>was_drunk := True\<rparr>\<rparr>))
      else Inr s)"

definition delays :: "string \<Rightarrow> stay_env \<Rightarrow> thread \<Rightarrow> error + thread" where
  "delays loc_name e s =
     and_then (incident (contains ''restaurant'' loc_name) (intox_roll e) (5/100) (intox_extra e)
                 intoxicated_update INTOXICATED s)
     (\<lambda>s. and_then (got_drunk loc_name e s)
     (\<lambda>s. and_then (incident (loc_name = ''shopping_street'') (popup_roll e) (4/100) (popup_extra e)
                 popup_delay_update POP_UP s)
     (\<lambda>s. and_then (incident (loc_name = ''hiking_excursion'') (lost_roll e) (3/100) (lost_extra e)
                 lost_hiking_update LOST s)
     (\<lambda>s. and_then (incident (loc_name = ''snorkeling_excursion'') (snorkel_roll e) (3/100)
                 (snorkel_extra e) snorkel_delay_update LATE_SWIM s)
     (\<lambda>s. incident (loc_name = ''paradise_beach'') (asleep_roll e) (4/100) (asleep_extra e)
                 fell_asleep_update ASLEEP s)))))"

text \<open>The part of \<^verbatim>\<open>stay_in_activity\<close> after the dwell loop.\<close>

definition rare_events :: "string \<Rightarrow> stay_env \<Rightarrow> thread \<Rightarrow> error + thread" where
  "rare_events loc_name e s =
     (if loc_name = ''hiking_excursion'' \<and> cliff_roll e < 2/100
      then Inr (die died_cliff_update s)
      else if loc_name = ''snorkeling_excursion'' \<and> shark_roll e < 2/100
      then Inr (die died_shark_update s)
      else delays loc_name e s)"

definition stay_in_activity :: "stay_env \<Rightarrow> thread \<Rightarrow> error + thread" where
  "stay_in_activity e s =
     (if is_dead (me s) then Inr s
      else case current_location (me s) of
        None \<Rightarrow> Inr s
      | Some i \<Rightarrow>
          and_then (dwell (polls e) s)
            (\<lambda>(returned, s').
               if returned then Inr s'
               else rare_events (name (locations (shared s) ! i)) e s'))"

subsubsection \<open>Returning to the ship\<close>

definition return_to_ship :: "return_env \<Rightarrow> thread \<Rightarrow> error + thread" where
  "return_to_ship r s =
     (if is_dead (me s) then Inr s
      else and_then
             (if was_drunk (me s) \<and> react_roll r < 5/100
              then sleep (react_delay r) (say DRUNK_DELAY s) else Inr s)
        (\<lambda>s. and_then (sleep (travel_time (TRANSPORT_STRATEGIES taxi) (1/2)) (say RETURN s))
        (\<lambda>s. Inr (if \<not> departed_seen r
                  then say BOARD (bump boarded_update
                         ((observe Departed (departed_seen r) s)\<lparr>me := (me s)\<lparr>on_board := True\<rparr>\<rparr>))
                  else say MISS (bump stranded_update (observe Departed (departed_seen r) s))))))"

subsubsection \<open>The thread's run\<close>

text \<open>The lines after the loop of \<^verbatim>\<open>run\<close>.\<close>

definition after_loop :: "thread \<Rightarrow> thread" where
  "after_loop s =
     (if \<not> on_board (me s) \<and> \<not> is_dead (me s)
      then say STRANDED
             (s\<lparr>shared := (shared s)\<lparr>stranded_passengers :=
                  stranded_passengers (shared s) @ [me s]\<rparr>\<rparr>)
      else s)"

text \<open>
  The part of the loop body under \<^verbatim>\<open>if self.current_location:\<close>. The result says
  whether \<^verbatim>\<open>run\<close> returned there (True: the passenger died during the stay).
\<close>

definition visit :: "stay_env \<Rightarrow> thread \<Rightarrow> error + bool \<times> thread" where
  "visit e s =
     (case current_location (me s) of
        None \<Rightarrow> Inr (False, s)
      | Some i \<Rightarrow>
          and_then (stay_in_activity e s)
            (\<lambda>s. if is_dead (me s) then Inr (True, s)
                 else Inr (False, leave_location i s)))"

text \<open>
  The loop of \<^verbatim>\<open>run\<close> and the lines after it, one \<open>iter_env\<close> per evaluation of the
  loop's condition.
\<close>

fun ashore :: "iter_env list \<Rightarrow> thread \<Rightarrow> error + thread" where
  "ashore [] s = Inl NotReturning"
| "ashore (e # es) s =
     (if departed_head e then Inr (after_loop (observe Departed (departed_head e) s))
      else if is_dead (me s) then Inr (observe Departed (departed_head e) s)
      else
        and_then (choose_activity (me s) (locations (shared s)) (activity_draw e))
        (\<lambda>i. and_then (go_to_location i (transport_draw e) (observe Departed (departed_head e) s))
        (\<lambda>s. and_then (visit (stay e) s)
        (\<lambda>(returned, s).
           if returned then Inr s
           else if last_call_end e
           then and_then (return_to_ship (ret e) (observe LastCall (last_call_end e) s))
                  (\<lambda>s. Inr (after_loop s))
           else ashore es (observe LastCall (last_call_end e) s)))))"

definition Passenger_run :: "run_env \<Rightarrow> thread \<Rightarrow> error + thread" where
  "Passenger_run env s =
     (if is_dead (me s) \<or> ship (me s) = None then Inr s
      else if \<not> arrives env then Inl NotReturning
      else if is_dead (me s) then Inr ((say WAIT s)\<lparr>trace := trace (say WAIT s) @ [Wait Arrived]\<rparr>)
      else ashore (iters env)
             (say ARRIVE ((say WAIT s)\<lparr>trace := trace (say WAIT s) @ [Wait Arrived]\<rparr>)))"

subsection \<open>Hunger games\<close>







subsection \<open>Island\<close>

definition Island_locations :: "location list" where
  "Island_locations =
     [Location_init ''mexican_restaurant'' 40 1 1,
      Location_init ''italian_restaurant'' 40 1 (12/10),
      Location_init ''senor_frog_bar'' 60 (15/10) (15/10),
      Location_init ''irish_bar'' 50 (15/10) (13/10),
      Location_init ''shopping_street'' 80 1 (18/10),
      Location_init ''hiking_excursion'' 30 2 2,
      Location_init ''snorkeling_excursion'' 30 2 (22/10),
      Location_init ''paradise_beach'' 100 2 1]"

definition world_init :: world where
  "world_init =
     \<lparr>locations = Island_locations, stats = stats_init,
      stranded_passengers = [], dead_passengers = []\<rparr>"

text \<open>
  The part of \<^verbatim>\<open>main\<close> before the tournament and the statistics. The ships' threads
  are started by \<^verbatim>\<open>setup_day\<close>, taken to cost no time; \<^verbatim>\<open>join\<close> returns when the
  ship's thread has ended, at once when it has ended before; then \<^verbatim>\<open>main\<close> sleeps three
  seconds. The result is the time at which \<^verbatim>\<open>main\<close> goes on to read the stranded
  registry and the counters. The passengers' threads are not joined.
\<close>

fun start_ships :: "CruiseShip list \<Rightarrow> error + ship_thread list" where
  "start_ships [] = Inr []"
| "start_ships (c # cs) =
     and_then (CruiseShip_run c) (\<lambda>t. and_then (start_ships cs) (\<lambda>ts. Inr (t # ts)))"

fun join_all :: "rat \<Rightarrow> ship_thread list \<Rightarrow> rat" where
  "join_all t [] = t"
| "join_all t (sh # shs) = join_all (max t (clock sh)) shs"

definition main_reads_at :: "CruiseShip list \<Rightarrow> error + rat" where
  "main_reads_at ships = and_then (start_ships ships) (\<lambda>ts. Inr (join_all 0 ts + 3))"

subsection \<open>The clock of a passenger thread\<close>

text \<open>When a signal fired, by the log of the ship's thread.\<close>

definition fire_time :: "(rat \<times> signal) list \<Rightarrow> signal \<Rightarrow> rat option" where
  "fire_time lg sg = map_option fst (find (\<lambda>(t, g). g = sg) lg)"

text \<open>
  The time at which each event of a passenger thread's trace is over, for a thread that
  is at time \<open>t\<close>: \<^verbatim>\<open>time.sleep(d)\<close> takes \<open>d\<close> seconds, \<^verbatim>\<open>Event.wait()\<close> returns when
  the signal has fired, at once when it has fired before, and every other statement is
  taken to cost no time. A wait for a signal that never fires does not return: the stamps
  end there.
\<close>

fun stamps :: "(rat \<times> signal) list \<Rightarrow> rat \<Rightarrow> event list \<Rightarrow> (rat \<times> event) list" where
  "stamps lg t [] = []"
| "stamps lg t (Sleep d # evs) = (t + d, Sleep d) # stamps lg (t + d) evs"
| "stamps lg t (Wait sg # evs) =
     (case fire_time lg sg of
        None \<Rightarrow> []
      | Some u \<Rightarrow> (max t u, Wait sg) # stamps lg (max t u) evs)"
| "stamps lg t (Print tg # evs) = (t, Print tg) # stamps lg t evs"
| "stamps lg t (IsSet sg b # evs) = (t, IsSet sg b) # stamps lg t evs"

text \<open>
  A stamped trace is \<open>on_schedule\<close> when each read of a signal gives what the ship's log
  says for the time of the read: set from the time at which the signal fired.
\<close>

fun reads_right :: "(rat \<times> signal) list \<Rightarrow> rat \<times> event \<Rightarrow> bool" where
  "reads_right lg (t, IsSet sg b) =
     (case fire_time lg sg of None \<Rightarrow> \<not> b | Some u \<Rightarrow> b = (u \<le> t))"
| "reads_right lg (t, Print tg) = True"
| "reads_right lg (t, Sleep d) = True"
| "reads_right lg (t, Wait sg) = True"

definition on_schedule :: "(rat \<times> signal) list \<Rightarrow> (rat \<times> event) list \<Rightarrow> bool" where
  "on_schedule lg tr \<longleftrightarrow> list_all (reads_right lg) tr"

text \<open>
  The passes of the dwell loop are half a second apart, the first at the start of the
  stay, and a pass is made only while the stay's \<open>base\<close> seconds are not over. So the
  polls of a stay are on time when only the last of them may see the last call, the last
  pass is made before the end of the stay, and, unless it sees the last call, the next
  pass would not be. \<open>stay_on_time\<close> says this of a pass of the loop of \<^verbatim>\<open>run\<close>, for
  the location that the passenger chooses there.
\<close>

definition dwell_on_time :: "rat \<Rightarrow> bool list \<Rightarrow> bool" where
  "dwell_on_time base bs \<longleftrightarrow>
     (if bs = [] then base \<le> 0
      else list_all (\<lambda>b. \<not> b) (butlast bs) \<and> of_nat (length bs - 1) / 2 < base \<and>
           (last bs \<or> base \<le> of_nat (length bs) / 2))"

definition stay_on_time :: "passenger \<Rightarrow> location list \<Rightarrow> iter_env \<Rightarrow> bool" where
  "stay_on_time p locs e \<longleftrightarrow>
     (case choose_activity p locs (activity_draw e) of
        Inl err \<Rightarrow> False
      | Inr i \<Rightarrow> dwell_on_time (base_duration (locs ! i)) (polls (stay e)))"

text \<open>
  The lines that tell a passenger's outcome (on board, stranded, dead) among the events
  stamped up to the time \<open>t\<close>.
\<close>

definition outcomes_by :: "rat \<Rightarrow> (rat \<times> event) list \<Rightarrow> event list" where
  "outcomes_by t tr =
     [ev \<leftarrow> map snd [x \<leftarrow> tr. fst x \<le> t]. ev \<in> {Print BOARD, Print STRANDED, Print DEATH}]"

subsection \<open>Conditions on the inputs of a passenger thread\<close>

text \<open>
  The values that \<^verbatim>\<open>random.uniform\<close> can return at its seven places, by its two
  arguments there.
\<close>

definition delays_in_range :: "stay_env \<Rightarrow> bool" where
  "delays_in_range e \<longleftrightarrow>
     1 \<le> intox_extra e \<and> intox_extra e \<le> 2 \<and> 2 \<le> drunk_extra e \<and> drunk_extra e \<le> 3 \<and>
     2 \<le> popup_extra e \<and> popup_extra e \<le> 4 \<and> 3 \<le> lost_extra e \<and> lost_extra e \<le> 5 \<and>
     3 \<le> snorkel_extra e \<and> snorkel_extra e \<le> 5 \<and> 2 \<le> asleep_extra e \<and> asleep_extra e \<le> 4"

definition iter_in_range :: "iter_env \<Rightarrow> bool" where
  "iter_in_range e \<longleftrightarrow>
     delays_in_range (stay e) \<and> 1 \<le> react_delay (ret e) \<and> react_delay (ret e) \<le> 2"

text \<open>
  The observations of a thread are \<open>fair\<close> when the ship arrives, some evaluation of the
  loop's condition or of the test at the end of the loop's body sees the ship's departure or
  its last call, and the uniform draws are in their ranges.
\<close>

definition recalled :: "iter_env list \<Rightarrow> bool" where
  "recalled es \<longleftrightarrow> list_ex (\<lambda>e. departed_head e \<or> last_call_end e) es"

definition fair :: "run_env \<Rightarrow> bool" where
  "fair env \<longleftrightarrow> arrives env \<and> recalled (iters env) \<and> list_all iter_in_range (iters env)"

text \<open>
  \<open>first_call es\<close> is the first pass of the loop at which the passenger is told to come
  back: its condition sees the departure, or the test at the end of its body sees the last
  call. A stay is \<open>deadly\<close> when one of the two rolls for a death is below its
  probability of 0.02.
\<close>

definition first_call :: "iter_env list \<Rightarrow> iter_env option" where
  "first_call es = find (\<lambda>e. departed_head e \<or> last_call_end e) es"

definition deadly :: "iter_env \<Rightarrow> bool" where
  "deadly e \<longleftrightarrow> cliff_roll (stay e) < 2/100 \<or> shark_roll (stay e) < 2/100"

text \<open>
  A passenger as the factory and \<open>attach_to_ship\<close> leave it: alive, not on board,
  with a ship. The island's locations are \<open>passable\<close> when there is at least one and no
  distance is negative.
\<close>

definition fresh :: "passenger \<Rightarrow> bool" where
  "fresh p \<longleftrightarrow> \<not> is_dead p \<and> \<not> on_board p \<and> ship p \<noteq> None"

definition passable :: "location list \<Rightarrow> bool" where
  "passable locs \<longleftrightarrow> locs \<noteq> [] \<and> list_all (\<lambda>d. 0 \<le> d) (map distance locs)"

subsection \<open>What a part of a thread's run leaves unchanged\<close>

text \<open>
  \<open>kept s s'\<close>: from \<open>s\<close> to \<open>s'\<close> the passenger's identity, its ship and its
  \<open>on_board\<close> flag, the stranded registry, the two counters of the return phase and the
  distances of the locations are the same, and \<open>was_drunk\<close> is not reset.
  \<open>outside_phase xs\<close>: none of the lines of the return phase and of the end of the run
  (the late reaction, the return, boarding, missing the ship, being stranded) is in \<open>xs\<close>.
  \<open>extends s s'\<close>: the trace has grown, by events outside the return phase, and
  \<open>was_drunk\<close> is set at the end exactly when it was set before or the line of the bar's
  incident is among the new ones.
  \<open>quiet\<close>: moreover the passenger is as dead as before and the dead registry is the
  same. \<open>died\<close>: the passenger is dead and is the new last entry of the dead registry.
\<close>

definition outside_phase :: "event list \<Rightarrow> bool" where
  "outside_phase xs \<longleftrightarrow>
     list_all (\<lambda>ev. ev \<notin> {Print DRUNK_DELAY, Print RETURN, Print BOARD, Print MISS, Print STRANDED}) xs"

definition kept :: "thread \<Rightarrow> thread \<Rightarrow> bool" where
  "kept s s' \<longleftrightarrow>
     passenger_id (me s') = passenger_id (me s) \<and> ship_id (me s') = ship_id (me s) \<and>
     strength (me s') = strength (me s) \<and> ship (me s') = ship (me s) \<and>
     on_board (me s') = on_board (me s) \<and> (was_drunk (me s) \<longrightarrow> was_drunk (me s')) \<and>
     stranded_passengers (shared s') = stranded_passengers (shared s) \<and>
     boarded (stats (shared s')) = boarded (stats (shared s)) \<and>
     stranded (stats (shared s')) = stranded (stats (shared s)) \<and>
     map distance (locations (shared s')) = map distance (locations (shared s))"

definition extends :: "thread \<Rightarrow> thread \<Rightarrow> bool" where
  "extends s s' \<longleftrightarrow>
     (\<exists>xs. trace s' = trace s @ xs \<and> outside_phase xs \<and>
           was_drunk (me s') = (was_drunk (me s) \<or> Print DRUNK \<in> set xs))"

definition quiet :: "thread \<Rightarrow> thread \<Rightarrow> bool" where
  "quiet s s' \<longleftrightarrow>
     kept s s' \<and> extends s s' \<and> is_dead (me s') = is_dead (me s) \<and>
     dead_passengers (shared s') = dead_passengers (shared s)"

definition died :: "thread \<Rightarrow> thread \<Rightarrow> bool" where
  "died s s' \<longleftrightarrow>
     kept s s' \<and> extends s s' \<and> is_dead (me s') \<and>
     dead_passengers (shared s') = dead_passengers (shared s) @ [me s']"

text \<open>\<open>same_places\<close>: the locations and the passenger's \<open>current_location\<close> are the same.\<close>

definition same_places :: "thread \<Rightarrow> thread \<Rightarrow> bool" where
  "same_places s s' \<longleftrightarrow>
     locations (shared s') = locations (shared s) \<and>
     current_location (me s') = current_location (me s)"

text \<open>What a thread's run has done to the passenger and to the two registries.\<close>

definition settled :: "thread \<Rightarrow> thread \<Rightarrow> bool" where
  "settled s s' \<longleftrightarrow>
     passenger_id (me s') = passenger_id (me s) \<and> ship_id (me s') = ship_id (me s) \<and>
     map distance (locations (shared s')) = map distance (locations (shared s)) \<and>
     \<not> (on_board (me s') \<and> is_dead (me s')) \<and>
     stranded_passengers (shared s') =
       stranded_passengers (shared s) @ [p \<leftarrow> [me s']. \<not> on_board p \<and> \<not> is_dead p] \<and>
     dead_passengers (shared s') = dead_passengers (shared s) @ [p \<leftarrow> [me s']. is_dead p]"

subsection \<open>Example inputs\<close>

text \<open>
  A young passenger of ship 1 on the island at the start of the day. In \<open>example_env\<close>
  he takes a taxi to the hiking excursion (the draw 19/28 falls on the sixth location),
  stays until last call and boards. In \<open>fatal_env\<close> the same stay ends with the fall off
  the cliff. In \<open>late_env\<close> the ship has departed when he is back.
\<close>

definition example_stay :: stay_env where
  "example_stay =
     \<lparr>polls = [False, True], cliff_roll = 1/2, shark_roll = 1/2, intox_roll = 1/2,
      intox_extra = 1, drunk_roll = 1/2, drunk_extra = 2, popup_roll = 1/2, popup_extra = 2,
      lost_roll = 1/2, lost_extra = 3, snorkel_roll = 1/2, snorkel_extra = 3,
      asleep_roll = 1/2, asleep_extra = 2\<rparr>"

definition example_iter :: iter_env where
  "example_iter =
     \<lparr>departed_head = False, activity_draw = 19/28, transport_draw = taxi, stay = example_stay,
      last_call_end = True,
      ret = \<lparr>react_roll = 1/2, react_delay = 1, departed_seen = False\<rparr>\<rparr>"

definition example_env :: run_env where
  "example_env = \<lparr>arrives = True, iters = [example_iter]\<rparr>"

definition fatal_env :: run_env where
  "fatal_env =
     \<lparr>arrives = True, iters = [example_iter\<lparr>stay := example_stay\<lparr>cliff_roll := 1/100\<rparr>\<rparr>]\<rparr>"

definition late_env :: run_env where
  "late_env =
     \<lparr>arrives = True,
      iters = [example_iter\<lparr>ret := \<lparr>react_roll = 1/2, react_delay = 1, departed_seen = True\<rparr>\<rparr>]\<rparr>"

text \<open>
  A day of five ships, the first of which arrives at hour 9 and is the last to leave.
  In \<open>swim_env\<close> its passenger 1000 takes a taxi to the beach three times and stays ten
  seconds each time, walks to the Italian restaurant and stays five seconds, and then,
  half a second before the last call, sets out on foot for the snorkeling excursion,
  where he struggles for five seconds.
\<close>

definition day_ships :: "CruiseShip list" where
  "day_ships =
     [CruiseShip_init 1 9, CruiseShip_init 2 8, CruiseShip_init 3 (17/2),
      CruiseShip_init 4 8, CruiseShip_init 5 (35/4)]"

definition beach_iter :: iter_env where
  "beach_iter =
     example_iter\<lparr>activity_draw := 6/7, stay := example_stay\<lparr>polls := replicate 20 False\<rparr>,
       last_call_end := False\<rparr>"

definition restaurant_iter :: iter_env where
  "restaurant_iter =
     example_iter\<lparr>activity_draw := 3/28, transport_draw := walk,
       stay := example_stay\<lparr>polls := replicate 10 False\<rparr>, last_call_end := False\<rparr>"

definition swim_iter :: iter_env where
  "swim_iter =
     example_iter\<lparr>activity_draw := 3/4, transport_draw := walk,
       stay := example_stay\<lparr>polls := [True], snorkel_roll := 1/100, snorkel_extra := 5\<rparr>,
       ret := \<lparr>react_roll = 1/2, react_delay = 1, departed_seen = True\<rparr>\<rparr>"

definition swim_env :: run_env where
  "swim_env =
     \<lparr>arrives = True, iters = [beach_iter, beach_iter, beach_iter, restaurant_iter, swim_iter]\<rparr>"

definition example_passenger :: passenger where
  "example_passenger =
     fst (attach_to_ship (Passenger_init 1000 1 ''young'' ''male'' 50) (CruiseShip_init 1 9))"

definition example_thread :: thread where
  "example_thread = \<lparr>me = example_passenger, shared = world_init, trace = []\<rparr>"

section \<open>Properties\<close>

lemma and_then_Inr [simp]: "and_then (Inr x) f = f x"
  by (simp add: and_then_def)

lemma and_then_Inl [simp]: "and_then (Inl e) f = Inl e"
  by (simp add: and_then_def)

lemma and_then_eq_Inr: "and_then m f = Inr y \<longleftrightarrow> (\<exists>x. m = Inr x \<and> f x = Inr y)"
  by (cases m) simp_all

subsection \<open>Location\<close>

text \<open>
  C4. \<open>try_enter\<close> returns True exactly when the occupancy is below the capacity at the
  call; then the occupancy is one more; otherwise the location is unchanged. Nothing else
  of the location changes in either case. The function is total: the call always returns
  (it takes the location's lock, and holds it over no suspension).
\<close>

theorem try_enter_spec:
  "fst (try_enter l pid) = (count l < max_capacity l) \<and>
   snd (try_enter l pid) =
     (if count l < max_capacity l then l\<lparr>count := count l + 1\<rparr> else l)"
  by (simp add: try_enter_def)

text \<open>
  C10. \<open>leave\<close> takes one off the occupancy whatever it is, with no lower bound: on a
  location whose occupancy is 0 it gives -1. Nothing else of the location changes.
\<close>

theorem leave_unguarded:
  "leave l pid = l\<lparr>count := count l - 1\<rparr> \<and> count (leave (l\<lparr>count := 0\<rparr>) pid) = - 1"
  by (simp add: leave_def)

lemma max_capacity_apply_call [simp]: "max_capacity (apply_call l c) = max_capacity l"
  by (cases c) (simp_all add: try_enter_def leave_def)

lemma paired_invariant:
  "count l = int (length holders) \<Longrightarrow> count l \<le> max_capacity l \<Longrightarrow> paired l holders cs \<Longrightarrow>
   l' \<in> set (occupancies l cs) \<Longrightarrow> 0 \<le> count l' \<and> count l' \<le> max_capacity l'"
proof (induction cs arbitrary: l holders)
  case Nil
  then show ?case by simp
next
  case (Cons c cs)
  show ?case
  proof (cases c)
    case (TryEnter pid)
    let ?l = "snd (try_enter l pid)"
    let ?h = "if fst (try_enter l pid) then pid # holders else holders"
    have inv: "count ?l = int (length ?h)" "count ?l \<le> max_capacity ?l"
      using Cons.prems(1,2) by (simp_all add: try_enter_def)
    have p: "paired ?l ?h cs"
      using Cons.prems(3) TryEnter by simp
    from Cons.prems(4) TryEnter have "l' = ?l \<or> l' \<in> set (occupancies ?l cs)"
      by simp
    then show ?thesis
    proof
      assume "l' = ?l"
      with inv show ?thesis by simp
    next
      assume "l' \<in> set (occupancies ?l cs)"
      with Cons.IH [OF inv p] show ?thesis .
    qed
  next
    case (Leave pid)
    let ?l = "leave l pid"
    let ?h = "remove1 pid holders"
    from Cons.prems(3) Leave have mem: "pid \<in> set holders" and p: "paired ?l ?h cs"
      by simp_all
    from mem have l1: "length ?h = length holders - 1"
      by (simp add: length_remove1)
    from mem have l2: "0 < length holders"
      by (rule length_pos_if_in_set)
    from l1 l2 have len: "int (length ?h) = int (length holders) - 1"
      by arith
    have inv: "count ?l = int (length ?h)" "count ?l \<le> max_capacity ?l"
      using Cons.prems(1,2) len by (simp_all add: leave_def)
    from Cons.prems(4) Leave have "l' = ?l \<or> l' \<in> set (occupancies ?l cs)"
      by simp
    then show ?thesis
    proof
      assume "l' = ?l"
      with inv show ?thesis by simp
    next
      assume "l' \<in> set (occupancies ?l cs)"
      with Cons.IH [OF inv p] show ?thesis .
    qed
  qed
qed

text \<open>
  C3. A location is created empty. If its capacity is not negative and the callers keep
  the protocol (every \<open>leave\<close> answers a successful \<open>try_enter\<close> of the same passenger
  that has not been answered yet), then at the start and after every call the occupancy
  lies between 0 and the capacity.
\<close>

theorem occupancy_bounds:
  assumes "0 \<le> cap"
    and "paired (Location_init nm cap h d) [] cs"
  shows "\<forall>l \<in> set (Location_init nm cap h d # occupancies (Location_init nm cap h d) cs).
           0 \<le> count l \<and> count l \<le> max_capacity l"
proof
  fix l
  assume "l \<in> set (Location_init nm cap h d # occupancies (Location_init nm cap h d) cs)"
  then have "l = Location_init nm cap h d \<or> l \<in> set (occupancies (Location_init nm cap h d) cs)"
    by simp
  then show "0 \<le> count l \<and> count l \<le> max_capacity l"
  proof
    assume "l = Location_init nm cap h d"
    with assms(1) show ?thesis by (simp add: Location_init_def)
  next
    assume "l \<in> set (occupancies (Location_init nm cap h d) cs)"
    with paired_invariant [of "Location_init nm cap h d" "[]" cs l] assms show ?thesis
      by (simp add: Location_init_def)
  qed
qed

theorem occupancy_bounds_witness:
  "(0::int) \<le> 1 \<and>
   paired (Location_init ''irish_bar'' 1 (3/2) (13/10)) [] [TryEnter 7, TryEnter 8, Leave 7, TryEnter 8] \<and>
   list_all (\<lambda>l. 0 \<le> count l \<and> count l \<le> max_capacity l)
     (Location_init ''irish_bar'' 1 (3/2) (13/10) #
       occupancies (Location_init ''irish_bar'' 1 (3/2) (13/10))
         [TryEnter 7, TryEnter 8, Leave 7, TryEnter 8])"
proof -
  have p: "paired (Location_init ''irish_bar'' 1 (3/2) (13/10)) []
             [TryEnter 7, TryEnter 8, Leave 7, TryEnter 8]"
    by (simp add: Location_init_def try_enter_def leave_def)
  have c: "(0::int) \<le> 1" by simp
  from occupancy_bounds [OF c p] p show ?thesis
    unfolding list_all_iff by simp
qed

subsection \<open>Transport\<close>

text \<open>
  C8. The travel time of a mode is the distance divided by the speed of the mode: 1 for
  walk, 3 for bus, 4 for taxi. It is a function of the mode and the distance alone.
\<close>

theorem travel_time_speed:
  "travel_time (TRANSPORT_STRATEGIES walk) d = d / 1 \<and>
   travel_time (TRANSPORT_STRATEGIES bus) d = d / 3 \<and>
   travel_time (TRANSPORT_STRATEGIES taxi) d = d / 4"
  by simp

subsection \<open>Ship\<close>

lemma fired_run:
  assumes "0 \<le> arrival_offset c" "\<not> arrived_event c" "\<not> last_call_event c" "\<not> departed_event c"
  shows "\<exists>t. CruiseShip_run c = Inr t \<and>
          fired t = [(arrival_offset c, Arrived), (arrival_offset c + 75/2, LastCall),
                     (arrival_offset c + 40, Departed)] \<and>
          arrived_event (vessel t) \<and> last_call_event (vessel t) \<and> departed_event (vessel t)"
  using assms
  by (simp add: CruiseShip_run_def ship_sleep_def set_event_def notify_last_call_def
      notify_departure_def SHIP_STAY_SECONDS_def LAST_CALL_SECONDS_def SHIP_STAY_HOURS_def
      SECONDS_PER_HOUR_def LAST_CALL_MINUTES_def)

text \<open>
  C6. A ship is created with its three signals unset, for an arrival hour that is not
  before the start of the arrival window (so that its first sleep is not negative). Its
  run returns, and the log of the signals that went from unset to set is: arrived, then
  last call 37.5 seconds later, then departed 2.5 seconds after that. So each signal
  fires exactly once, in this order, at strictly increasing times; each is unset before the
  run and set after it.
\<close>

theorem ship_signals_in_order:
  assumes "ARRIVAL_WINDOW_START \<le> arrival_hour"
  shows "\<exists>t. CruiseShip_run (CruiseShip_init sid arrival_hour) = Inr t \<and>
          fired t = [((arrival_hour - 8) * 5, Arrived),
                     ((arrival_hour - 8) * 5 + 75/2, LastCall),
                     ((arrival_hour - 8) * 5 + 40, Departed)] \<and>
          (arrival_hour - 8) * 5 < (arrival_hour - 8) * 5 + 75/2 \<and>
          (arrival_hour - 8) * 5 + 75/2 < (arrival_hour - 8) * 5 + 40 \<and>
          (\<forall>sg. \<not> is_set sg (CruiseShip_init sid arrival_hour) \<and> is_set sg (vessel t))"
proof -
  let ?c = "CruiseShip_init sid arrival_hour"
  have off: "arrival_offset ?c = (arrival_hour - 8) * 5"
    by (simp add: CruiseShip_init_def ARRIVAL_WINDOW_START_def SECONDS_PER_HOUR_def)
  have "0 \<le> arrival_offset ?c"
    using assms by (simp add: off ARRIVAL_WINDOW_START_def)
  moreover have init: "\<not> arrived_event ?c" "\<not> last_call_event ?c" "\<not> departed_event ?c"
    by (simp_all add: CruiseShip_init_def)
  ultimately obtain t where t: "CruiseShip_run ?c = Inr t"
    "fired t = [(arrival_offset ?c, Arrived), (arrival_offset ?c + 75/2, LastCall),
                (arrival_offset ?c + 40, Departed)]"
    "arrived_event (vessel t)" "last_call_event (vessel t)" "departed_event (vessel t)"
    using fired_run [of ?c] by blast
  have "\<forall>sg. \<not> is_set sg ?c \<and> is_set sg (vessel t)"
  proof
    fix sg show "\<not> is_set sg ?c \<and> is_set sg (vessel t)"
      using init t(3-5) by (cases sg) simp_all
  qed
  with t(1,2) off show ?thesis by simp
qed

theorem ship_signals_in_order_witness:
  "ARRIVAL_WINDOW_START \<le> 9 \<and>
   (\<exists>t. CruiseShip_run (CruiseShip_init 1 9) = Inr t \<and>
      fired t = [(5, Arrived), (85/2, LastCall), (45, Departed)])"
proof -
  have h: "ARRIVAL_WINDOW_START \<le> 9" by (simp add: ARRIVAL_WINDOW_START_def)
  from ship_signals_in_order [OF h, of 1] h show ?thesis by auto
qed

subsection \<open>Hunger games\<close>







subsection \<open>Passenger: what each step leaves unchanged\<close>

lemma and_thenE:
  assumes "and_then m f = Inr y"
  obtains x where "m = Inr x" "f x = Inr y"
  using assms by (cases m) simp_all

lemma say_simps [simp]:
  "me (say tg s) = me s" "shared (say tg s) = shared s" "trace (say tg s) = trace s @ [Print tg]"
  by (simp_all add: say_def)

lemma observe_simps [simp]:
  "me (observe sg b s) = me s" "shared (observe sg b s) = shared s"
  "trace (observe sg b s) = trace s @ [IsSet sg b]"
  by (simp_all add: observe_def)

lemma bump_simps [simp]:
  "me (bump f s) = me s" "trace (bump f s) = trace s"
  "locations (shared (bump f s)) = locations (shared s)"
  "stranded_passengers (shared (bump f s)) = stranded_passengers (shared s)"
  "dead_passengers (shared (bump f s)) = dead_passengers (shared s)"
  "stats (shared (bump f s)) = f (\<lambda>n. n + 1) (stats (shared s))"
  by (simp_all add: bump_def)

lemma sleep_eq_Inr: "sleep d s = Inr s' \<longleftrightarrow> 0 \<le> d \<and> s' = s\<lparr>trace := trace s @ [Sleep d]\<rparr>"
  by (auto simp: sleep_def)

lemma kept_refl [simp]: "kept s s"
  by (simp add: kept_def)

lemma outside_phase_simps [simp]:
  "outside_phase []"
  "outside_phase (xs @ ys) \<longleftrightarrow> outside_phase xs \<and> outside_phase ys"
  "outside_phase (ev # xs) \<longleftrightarrow>
     ev \<notin> {Print DRUNK_DELAY, Print RETURN, Print BOARD, Print MISS, Print STRANDED} \<and>
     outside_phase xs"
  by (simp_all add: outside_phase_def)

lemma extends_refl [simp]: "extends s s"
  by (simp add: extends_def)

lemma quiet_refl [simp]: "quiet s s"
  by (simp add: quiet_def)

lemma kept_trans: "kept s t \<Longrightarrow> kept t u \<Longrightarrow> kept s u"
  by (simp add: kept_def)

lemma extends_trans:
  assumes "extends s t" "extends t u"
  shows "extends s u"
proof -
  from assms(1) obtain xs where 1: "trace t = trace s @ xs" "outside_phase xs"
    "was_drunk (me t) = (was_drunk (me s) \<or> Print DRUNK \<in> set xs)"
    unfolding extends_def by blast
  from assms(2) obtain ys where 2: "trace u = trace t @ ys" "outside_phase ys"
    "was_drunk (me u) = (was_drunk (me t) \<or> Print DRUNK \<in> set ys)"
    unfolding extends_def by blast
  from 1 2 have "trace u = trace s @ (xs @ ys) \<and> outside_phase (xs @ ys) \<and>
      was_drunk (me u) = (was_drunk (me s) \<or> Print DRUNK \<in> set (xs @ ys))"
    by auto
  then show ?thesis
    unfolding extends_def by blast
qed

lemma quiet_trans [trans]: "quiet s t \<Longrightarrow> quiet t u \<Longrightarrow> quiet s u"
  unfolding quiet_def using kept_trans extends_trans by auto

lemma quiet_say:
  "tg \<notin> {DRUNK, DRUNK_DELAY, RETURN, BOARD, MISS, STRANDED} \<Longrightarrow> quiet s (say tg s)"
  by (auto simp: quiet_def kept_def extends_def)

lemma quiet_observe: "quiet s (observe sg b s)"
  by (simp add: quiet_def kept_def extends_def)

lemma quiet_sleep: "sleep d s = Inr s' \<Longrightarrow> quiet s s'"
  by (auto simp: sleep_eq_Inr quiet_def kept_def extends_def)

lemma quiet_bump:
  "boarded (f (\<lambda>n. n + 1) (stats (shared s))) = boarded (stats (shared s)) \<Longrightarrow>
   stranded (f (\<lambda>n. n + 1) (stats (shared s))) = stranded (stats (shared s)) \<Longrightarrow>
   quiet s (bump f s)"
  by (simp add: quiet_def kept_def extends_def)

lemma map_distance_update:
  "distance x = distance (ls ! i) \<Longrightarrow> map distance (ls[i := x]) = map distance ls"
  by (cases "i < length ls") (simp_all add: map_update list_update_same_conv list_update_beyond)

lemma quiet_enter_location: "quiet s (enter_location i s)"
  by (simp add: enter_location_def quiet_def kept_def extends_def try_enter_def map_distance_update)

lemma quiet_leave_location: "quiet s (leave_location i s)"
  by (simp add: leave_location_def quiet_def kept_def extends_def leave_def map_distance_update)

lemma quiet_choose_transport: "quiet s (choose_transport m s)"
  by (simp add: choose_transport_def quiet_def kept_def extends_def)

lemma quiet_go_to_location:
  assumes "go_to_location i m s = Inr s'"
  shows "quiet s s'"
proof (cases "is_dead (me s)")
  case True
  with assms show ?thesis by (simp add: go_to_location_def)
next
  case False
  let ?s1 = "say MOVE (choose_transport m s)"
  from assms False obtain s2 where sl: "sleep (travel_time (transport_strategy (me (choose_transport m s)))
                       (distance (locations (shared s) ! i))) ?s1 = Inr s2"
    and s': "s' = enter_location i s2"
    by (auto simp: go_to_location_def and_then_eq_Inr)
  have "quiet s ?s1"
    by (rule quiet_trans [OF quiet_choose_transport quiet_say]) simp
  also have "quiet ?s1 s2" using sl by (rule quiet_sleep)
  also have "quiet s2 s'" unfolding s' by (rule quiet_enter_location)
  finally show ?thesis .
qed

lemma quiet_dwell: "dwell bs s = Inr (b, s') \<Longrightarrow> quiet s s'"
proof (induction bs arbitrary: s)
  case Nil
  then show ?case by simp
next
  case (Cons x bs)
  show ?case
  proof (cases "is_dead (me s) \<or> x")
    case True
    with Cons.prems show ?thesis by (auto simp: quiet_observe split: if_splits)
  next
    case False
    with Cons.prems obtain s1 where s1: "sleep (1/2) (observe LastCall x s) = Inr s1"
      and d: "dwell bs s1 = Inr (b, s')"
      by (auto simp: and_then_eq_Inr)
    have "quiet s (observe LastCall x s)" by (rule quiet_observe)
    also have "quiet (observe LastCall x s) s1" using s1 by (rule quiet_sleep)
    also have "quiet s1 s'" using d by (rule Cons.IH)
    finally show ?thesis .
  qed
qed

lemma quiet_incident:
  assumes "incident here roll prob extra key tg s = Inr s'"
    and "tg \<notin> {DRUNK, DRUNK_DELAY, RETURN, BOARD, MISS, STRANDED}"
    and "\<And>st. boarded (key (\<lambda>n. n + 1) st) = boarded st"
    and "\<And>st. stranded (key (\<lambda>n. n + 1) st) = stranded st"
  shows "quiet s s'"
proof (cases "here \<and> roll < prob")
  case True
  with assms(1) have sl: "sleep extra (say tg (bump key s)) = Inr s'"
    by (simp add: incident_def)
  have "quiet s (bump key s)" by (rule quiet_bump) (simp_all add: assms(3,4))
  also have "quiet (bump key s) (say tg (bump key s))" using assms(2) by (rule quiet_say)
  also have "quiet (say tg (bump key s)) s'" using sl by (rule quiet_sleep)
  finally show ?thesis .
next
  case False
  with assms(1) show ?thesis by (auto simp: incident_def)
qed

lemma quiet_got_drunk:
  assumes "got_drunk loc_name e s = Inr s'"
  shows "quiet s s'"
proof (cases "contains ''bar'' loc_name \<and> drunk_roll e < 7/100")
  case True
  with assms obtain s1 where sl: "sleep (drunk_extra e) (say DRUNK (bump drunk_update s)) = Inr s1"
    and s': "s' = s1\<lparr>me := (me s1)\<lparr>was_drunk := True\<rparr>\<rparr>"
    by (auto simp: got_drunk_def and_then_eq_Inr)
  from sl have "s1 = (say DRUNK (bump drunk_update s))
                      \<lparr>trace := trace (say DRUNK (bump drunk_update s)) @ [Sleep (drunk_extra e)]\<rparr>"
    by (simp add: sleep_eq_Inr)
  then show ?thesis
    unfolding s' by (simp add: quiet_def kept_def extends_def)
next
  case False
  with assms show ?thesis by (auto simp: got_drunk_def)
qed

lemma quiet_delays:
  assumes "delays loc_name e s = Inr s'"
  shows "quiet s s'"
proof -
  from assms obtain s1 s2 s3 s4 s5 where
    1: "incident (contains ''restaurant'' loc_name) (intox_roll e) (5/100) (intox_extra e)
                 intoxicated_update INTOXICATED s = Inr s1"
    and 2: "got_drunk loc_name e s1 = Inr s2"
    and 3: "incident (loc_name = ''shopping_street'') (popup_roll e) (4/100) (popup_extra e)
                 popup_delay_update POP_UP s2 = Inr s3"
    and 4: "incident (loc_name = ''hiking_excursion'') (lost_roll e) (3/100) (lost_extra e)
                 lost_hiking_update LOST s3 = Inr s4"
    and 5: "incident (loc_name = ''snorkeling_excursion'') (snorkel_roll e) (3/100)
                 (snorkel_extra e) snorkel_delay_update LATE_SWIM s4 = Inr s5"
    and 6: "incident (loc_name = ''paradise_beach'') (asleep_roll e) (4/100) (asleep_extra e)
                 fell_asleep_update ASLEEP s5 = Inr s'"
    unfolding delays_def and_then_eq_Inr by blast
  have "quiet s s1" using 1 by (rule quiet_incident) simp_all
  also have "quiet s1 s2" using 2 by (rule quiet_got_drunk)
  also have "quiet s2 s3" using 3 by (rule quiet_incident) simp_all
  also have "quiet s3 s4" using 4 by (rule quiet_incident) simp_all
  also have "quiet s4 s5" using 5 by (rule quiet_incident) simp_all
  also have "quiet s5 s'" using 6 by (rule quiet_incident) simp_all
  finally show ?thesis .
qed

lemma died_die:
  assumes "\<And>st. boarded (cause (\<lambda>n. n + 1) st) = boarded st"
    and "\<And>st. stranded (cause (\<lambda>n. n + 1) st) = stranded st"
  shows "died s (die cause s)"
  by (simp add: died_def die_def kept_def extends_def assms bump_def say_def)

lemma quiet_died: "quiet s t \<Longrightarrow> died t u \<Longrightarrow> died s u"
  unfolding quiet_def died_def using kept_trans extends_trans by auto

lemma rare_events_cases:
  assumes "rare_events loc_name e s = Inr s'"
  shows "quiet s s' \<or> died s s'"
proof (cases "loc_name = ''hiking_excursion'' \<and> cliff_roll e < 2/100")
  case True
  then have "rare_events loc_name e s = Inr (die died_cliff_update s)"
    unfolding rare_events_def by (rule if_P)
  with assms have "s' = die died_cliff_update s" by simp
  moreover have "died s (die died_cliff_update s)" by (rule died_die) simp_all
  ultimately show ?thesis by simp
next
  case no_cliff: False
  show ?thesis
  proof (cases "loc_name = ''snorkeling_excursion'' \<and> shark_roll e < 2/100")
    case True
    with no_cliff have "rare_events loc_name e s = Inr (die died_shark_update s)"
      unfolding rare_events_def by simp
    with assms have "s' = die died_shark_update s" by simp
    moreover have "died s (die died_shark_update s)" by (rule died_die) simp_all
    ultimately show ?thesis by simp
  next
    case False
    with no_cliff have "rare_events loc_name e s = delays loc_name e s"
      unfolding rare_events_def by (simp only: if_False)
    with assms have "delays loc_name e s = Inr s'" by simp
    then have "quiet s s'" by (rule quiet_delays)
    then show ?thesis ..
  qed
qed

lemma stay_in_activity_cases:
  assumes "stay_in_activity e s = Inr s'"
  shows "quiet s s' \<or> died s s'"
proof (cases "is_dead (me s)")
  case True
  with assms show ?thesis by (simp add: stay_in_activity_def)
next
  case alive: False
  show ?thesis
  proof (cases "current_location (me s)")
    case None
    with assms alive show ?thesis by (simp add: stay_in_activity_def)
  next
    case (Some i)
    with assms alive have "and_then (dwell (polls e) s)
            (\<lambda>(returned, s').
               if returned then Inr s'
               else rare_events (name (locations (shared s) ! i)) e s') = Inr s'"
      by (simp add: stay_in_activity_def)
    then obtain x where d: "dwell (polls e) s = Inr x"
      and rest: "(case x of (returned, s') \<Rightarrow>
               if returned then Inr s'
               else rare_events (name (locations (shared s) ! i)) e s') = Inr s'"
      by (rule and_thenE) (rule that)
    obtain returned s1 where x: "x = (returned, s1)" by (cases x)
    from d x have q: "quiet s s1" by (simp add: quiet_dwell)
    show ?thesis
    proof (cases returned)
      case True
      with rest x have "s' = s1" by simp
      with q show ?thesis by simp
    next
      case False
      with rest x have "rare_events (name (locations (shared s) ! i)) e s1 = Inr s'" by simp
      then have "quiet s1 s' \<or> died s1 s'" by (rule rare_events_cases)
      with q show ?thesis using quiet_died quiet_trans by blast
    qed
  qed
qed

lemma visit_cases:
  assumes "visit e s = Inr (returned, s')" and "\<not> is_dead (me s)"
  shows "(returned \<and> died s s') \<or> (\<not> returned \<and> quiet s s')"
proof (cases "current_location (me s)")
  case None
  with assms show ?thesis by (simp add: visit_def)
next
  case (Some i)
  with assms(1) have "and_then (stay_in_activity e s)
            (\<lambda>s. if is_dead (me s) then Inr (True, s)
                 else Inr (False, leave_location i s)) = Inr (returned, s')"
    by (simp add: visit_def)
  then obtain s1 where st: "stay_in_activity e s = Inr s1"
    and rest: "(if is_dead (me s1) then Inr (True, s1)
                 else Inr (False, leave_location i s1)) = (Inr (returned, s') :: error + bool \<times> thread)"
    by (rule and_thenE) (rule that)
  from st have "quiet s s1 \<or> died s s1" by (rule stay_in_activity_cases)
  then show ?thesis
  proof
    assume q: "quiet s s1"
    with assms(2) have "\<not> is_dead (me s1)" by (simp add: quiet_def)
    with rest have r: "\<not> returned" "s' = leave_location i s1" by simp_all
    from q have "quiet s (leave_location i s1)"
      by (rule quiet_trans) (rule quiet_leave_location)
    with r show ?thesis by simp
  next
    assume d: "died s s1"
    then have "is_dead (me s1)" by (simp add: died_def)
    with rest have "returned" "s' = s1" by simp_all
    with d show ?thesis by simp
  qed
qed

lemma return_to_ship_alive:
  assumes "\<not> is_dead (me s)" "return_to_ship r s = Inr s'"
  shows "me s' = (if departed_seen r then me s else (me s)\<lparr>on_board := True\<rparr>)"
    and "shared s' = (shared s)\<lparr>stats :=
           (if departed_seen r then stranded_update else boarded_update) (\<lambda>n. n + 1)
             (stats (shared s))\<rparr>"
    and "trace s' = trace s @
           (if was_drunk (me s) \<and> react_roll r < 5/100
            then [Print DRUNK_DELAY, Sleep (react_delay r)] else []) @
           [Print RETURN, Sleep (1/8), IsSet Departed (departed_seen r),
            Print (if departed_seen r then MISS else BOARD)]"
  using assms
  by (auto simp: return_to_ship_def sleep_def bump_def say_def observe_def split: if_splits)

lemma return_to_ship_total:
  assumes "\<not> is_dead (me s)" "0 \<le> react_delay r"
  shows "\<exists>s'. return_to_ship r s = Inr s'"
  using assms by (simp add: return_to_ship_def sleep_def)

lemma ashore_shape:
  assumes "ashore es s = Inr s'" "\<not> is_dead (me s)"
  shows "died s s' \<or> (\<exists>s1. quiet s s1 \<and> s' = after_loop s1) \<or>
         (\<exists>s1 s2 r. quiet s s1 \<and> return_to_ship r s1 = Inr s2 \<and> s' = after_loop s2)"
  using assms
proof (induction es arbitrary: s)
  case Nil
  then show ?case by simp
next
  case (Cons e es)
  let ?s0 = "observe Departed (departed_head e) s"
  have q0: "quiet s ?s0" by (rule quiet_observe)
  show ?case
  proof (cases "departed_head e")
    case True
    with Cons.prems(1) have "s' = after_loop ?s0" by simp
    with q0 show ?thesis by blast
  next
    case False
    with Cons.prems have body:
      "and_then (choose_activity (me s) (locations (shared s)) (activity_draw e))
        (\<lambda>i. and_then (go_to_location i (transport_draw e) ?s0)
        (\<lambda>s. and_then (visit (stay e) s)
        (\<lambda>(returned, s).
           if returned then Inr s
           else if last_call_end e
           then and_then (return_to_ship (ret e) (observe LastCall (last_call_end e) s))
                  (\<lambda>s. Inr (after_loop s))
           else ashore es (observe LastCall (last_call_end e) s)))) = Inr s'"
      by simp
    then obtain i where
      "and_then (go_to_location i (transport_draw e) ?s0)
        (\<lambda>s. and_then (visit (stay e) s)
        (\<lambda>(returned, s).
           if returned then Inr s
           else if last_call_end e
           then and_then (return_to_ship (ret e) (observe LastCall (last_call_end e) s))
                  (\<lambda>s. Inr (after_loop s))
           else ashore es (observe LastCall (last_call_end e) s))) = Inr s'"
      by (rule and_thenE) (rule that)
    then obtain s1 where go: "go_to_location i (transport_draw e) ?s0 = Inr s1"
      and v: "and_then (visit (stay e) s1)
        (\<lambda>(returned, s).
           if returned then Inr s
           else if last_call_end e
           then and_then (return_to_ship (ret e) (observe LastCall (last_call_end e) s))
                  (\<lambda>s. Inr (after_loop s))
           else ashore es (observe LastCall (last_call_end e) s)) = Inr s'"
      by (rule and_thenE) (rule that)
    from v obtain x where vx: "visit (stay e) s1 = Inr x"
      and restx: "(case x of (returned, s) \<Rightarrow>
           if returned then Inr s
           else if last_call_end e
           then and_then (return_to_ship (ret e) (observe LastCall (last_call_end e) s))
                  (\<lambda>s. Inr (after_loop s))
           else ashore es (observe LastCall (last_call_end e) s)) = Inr s'"
      by (rule and_thenE) (rule that)
    obtain returned s2 where x: "x = (returned, s2)" by (cases x)
    from go have "quiet ?s0 s1" by (rule quiet_go_to_location)
    with q0 have q1: "quiet s s1" by (rule quiet_trans)
    with Cons.prems(2) have alive1: "\<not> is_dead (me s1)" by (simp add: quiet_def)
    from vx x alive1 have "(returned \<and> died s1 s2) \<or> (\<not> returned \<and> quiet s1 s2)"
      by (simp add: visit_cases)
    then show ?thesis
    proof
      assume "returned \<and> died s1 s2"
      with restx x have "s' = s2" "died s1 s2" by simp_all
      with q1 have "died s s'" by (simp add: quiet_died)
      then show ?thesis ..
    next
      assume nr: "\<not> returned \<and> quiet s1 s2"
      let ?s3 = "observe LastCall (last_call_end e) s2"
      from nr q1 have "quiet s s2" using quiet_trans by blast
      then have q3: "quiet s ?s3" by (rule quiet_trans) (rule quiet_observe)
      show ?thesis
      proof (cases "last_call_end e")
        case True
        with restx x nr have "and_then (return_to_ship (ret e) ?s3) (\<lambda>s. Inr (after_loop s)) = Inr s'"
          by simp
        then obtain s4 where "return_to_ship (ret e) ?s3 = Inr s4" "s' = after_loop s4"
          by (auto elim: and_thenE)
        with q3 show ?thesis by blast
      next
        case False
        with restx x nr have rec: "ashore es ?s3 = Inr s'" by simp
        from q3 Cons.prems(2) have "\<not> is_dead (me ?s3)" by (simp add: quiet_def)
        from Cons.IH [OF rec this]
        show ?thesis
        proof (elim disjE exE conjE)
          assume "died ?s3 s'"
          with q3 have "died s s'" by (rule quiet_died)
          then show ?thesis ..
        next
          fix t assume "quiet ?s3 t" "s' = after_loop t"
          with q3 have "quiet s t \<and> s' = after_loop t" using quiet_trans by blast
          then show ?thesis by blast
        next
          fix t u r assume "quiet ?s3 t" "return_to_ship r t = Inr u" "s' = after_loop u"
          with q3 have "quiet s t \<and> return_to_ship r t = Inr u \<and> s' = after_loop u"
            using quiet_trans by blast
          then show ?thesis by blast
        qed
      qed
    qed
  qed
qed

subsection \<open>Passenger: the thread returns\<close>

lemma and_then_total:
  assumes "\<exists>x. m = Inr x" and "\<And>x. \<exists>y. f x = Inr y"
  shows "\<exists>y. and_then m f = Inr y"
  using assms by auto

lemma sleep_total: "0 \<le> d \<Longrightarrow> \<exists>s'. sleep d s = Inr s'"
  by (simp add: sleep_def)

lemma length_accumulate_from [simp]: "length (accumulate_from a xs) = length xs"
  by (induction xs arbitrary: a) simp_all

lemma last_accumulate_from:
  "xs \<noteq> [] \<Longrightarrow> \<forall>x\<in>set xs. 1 \<le> x \<Longrightarrow> a < last (accumulate_from a xs)"
proof (induction xs arbitrary: a)
  case Nil
  then show ?case by simp
next
  case (Cons x xs)
  show ?case
  proof (cases xs)
    case Nil
    with Cons.prems show ?thesis by simp
  next
    case (Cons y ys)
    with Cons.prems Cons.IH [of "a + x"] have "a + x < last (accumulate_from (a + x) xs)"
      by simp
    moreover have "accumulate_from (a + x) xs \<noteq> []"
      using Cons by simp
    ultimately show ?thesis using Cons.prems by simp
  qed
qed

lemma activity_weight_pos: "1 \<le> activity_weight p l"
  by (simp add: activity_weight_def)

lemma choose_activity_total:
  assumes "locs \<noteq> []"
  shows "\<exists>i. choose_activity p locs u = Inr i \<and> i < length locs"
proof -
  let ?ws = "map (activity_weight p) locs"
  let ?cum = "accumulate_from 0 ?ws"
  let ?k = "length (takeWhile (\<lambda>c. of_int c \<le> u * of_int (last ?cum)) (butlast ?cum))"
  from assms have "0 < last ?cum"
    by (intro last_accumulate_from) (simp_all add: activity_weight_pos)
  then have eq: "choose_activity p locs u = Inr ([0..<length locs] ! ?k)"
    using assms by (simp add: choose_activity_def choices_def)
  have "?k \<le> length (butlast ?cum)" by (rule length_takeWhile_le)
  also have "\<dots> < length locs" using assms by simp
  finally have k: "?k < length locs" .
  then have "[0..<length locs] ! ?k = ?k" by simp
  with eq k show ?thesis by simp
qed

lemma travel_time_nonneg: "0 \<le> d \<Longrightarrow> 0 \<le> travel_time st d"
  by (cases st) simp_all

lemma go_to_location_total:
  assumes "0 \<le> distance (locations (shared s) ! i)"
  shows "\<exists>s'. go_to_location i m s = Inr s'"
  using travel_time_nonneg [OF assms, of "transport_strategy (me (choose_transport m s))"]
  by (simp add: go_to_location_def sleep_def not_less [symmetric])

lemma dwell_total: "\<exists>x. dwell bs s = Inr x"
  by (induction bs arbitrary: s) (auto simp: sleep_def)

lemma incident_total: "0 \<le> extra \<Longrightarrow> \<exists>s'. incident here roll prob extra key tg s = Inr s'"
  by (simp add: incident_def sleep_def)

lemma got_drunk_total: "0 \<le> drunk_extra e \<Longrightarrow> \<exists>s'. got_drunk loc_name e s = Inr s'"
  by (simp add: got_drunk_def sleep_def)

lemma delays_total:
  assumes "delays_in_range e"
  shows "\<exists>s'. delays loc_name e s = Inr s'"
  unfolding delays_def
  using assms
  by (intro and_then_total incident_total got_drunk_total) (simp_all add: delays_in_range_def)

lemma rare_events_total: "delays_in_range e \<Longrightarrow> \<exists>s'. rare_events loc_name e s = Inr s'"
  by (simp add: rare_events_def delays_total)

lemma stay_in_activity_total:
  assumes "delays_in_range e"
  shows "\<exists>s'. stay_in_activity e s = Inr s'"
proof (cases "is_dead (me s)")
  case True
  then show ?thesis by (simp add: stay_in_activity_def)
next
  case alive: False
  show ?thesis
  proof (cases "current_location (me s)")
    case None
    with alive show ?thesis by (simp add: stay_in_activity_def)
  next
    case (Some i)
    have "\<exists>y. and_then (dwell (polls e) s)
            (\<lambda>(returned, s').
               if returned then Inr s'
               else rare_events (name (locations (shared s) ! i)) e s') = Inr y"
    proof (rule and_then_total)
      show "\<exists>x. dwell (polls e) s = Inr x" by (rule dwell_total)
    next
      fix x :: "bool \<times> thread"
      show "\<exists>y. (case x of (returned, s') \<Rightarrow>
               if returned then Inr s'
               else rare_events (name (locations (shared s) ! i)) e s') = Inr y"
        using assms by (cases x) (simp add: rare_events_total)
    qed
    with alive Some show ?thesis by (simp add: stay_in_activity_def)
  qed
qed

lemma visit_total:
  assumes "delays_in_range e"
  shows "\<exists>x. visit e s = Inr x"
proof (cases "current_location (me s)")
  case None
  then show ?thesis by (auto simp: visit_def)
next
  case (Some i)
  from assms obtain s1 where "stay_in_activity e s = Inr s1"
    using stay_in_activity_total by blast
  with Some show ?thesis by (auto simp: visit_def)
qed

lemma passable_quiet:
  assumes "quiet s s'" "passable (locations (shared s))"
  shows "passable (locations (shared s'))"
proof -
  from assms(1) have eq: "map distance (locations (shared s')) = map distance (locations (shared s))"
    by (simp add: quiet_def kept_def)
  then have "length (locations (shared s')) = length (locations (shared s))"
    by (rule map_eq_imp_length_eq)
  with assms(2) eq show ?thesis by (auto simp: passable_def)
qed

lemma passable_nth: "passable locs \<Longrightarrow> i < length locs \<Longrightarrow> 0 \<le> distance (locs ! i)"
  by (simp add: passable_def list_all_length)

lemma ashore_total:
  assumes "recalled es" "list_all iter_in_range es" "passable (locations (shared s))"
    "\<not> is_dead (me s)"
  shows "\<exists>s'. ashore es s = Inr s'"
  using assms
proof (induction es arbitrary: s)
  case Nil
  then show ?case by (simp add: recalled_def)
next
  case (Cons e es)
  let ?s0 = "observe Departed (departed_head e) s"
  show ?case
  proof (cases "departed_head e")
    case True
    then show ?thesis by simp
  next
    case False
    from Cons.prems(2) have here: "iter_in_range e" and rngs: "list_all iter_in_range es"
      by simp_all
    from here have rng: "delays_in_range (stay e)" "0 \<le> react_delay (ret e)"
      by (simp_all add: iter_in_range_def)
    from Cons.prems(3) obtain i where i: "choose_activity (me s) (locations (shared s)) (activity_draw e) = Inr i"
      "i < length (locations (shared s))"
      using choose_activity_total [of "locations (shared s)"] by (auto simp: passable_def)
    with Cons.prems(3) have "0 \<le> distance (locations (shared ?s0) ! i)"
      by (simp add: passable_nth)
    then obtain s1 where go: "go_to_location i (transport_draw e) ?s0 = Inr s1"
      using go_to_location_total by blast
    then have "quiet ?s0 s1" by (rule quiet_go_to_location)
    with quiet_observe have q1: "quiet s s1" by (rule quiet_trans)
    with Cons.prems(4) have alive1: "\<not> is_dead (me s1)" by (simp add: quiet_def)
    from rng(1) obtain returned s2 where vis: "visit (stay e) s1 = Inr (returned, s2)"
      using visit_total by (metis surj_pair)
    let ?s3 = "observe LastCall (last_call_end e) s2"
    have "\<exists>s'. (if returned then Inr s2
           else if last_call_end e
           then and_then (return_to_ship (ret e) ?s3) (\<lambda>s. Inr (after_loop s))
           else ashore es ?s3) = Inr s'"
    proof (cases returned)
      case True
      then show ?thesis by simp
    next
      case nr: False
      with vis alive1 have "quiet s1 s2" using visit_cases by blast
      with q1 have "quiet s s2" by (rule quiet_trans)
      then have q3: "quiet s ?s3" by (rule quiet_trans) (rule quiet_observe)
      with Cons.prems(4) have alive3: "\<not> is_dead (me ?s3)" by (simp add: quiet_def)
      show ?thesis
      proof (cases "last_call_end e")
        case True
        from alive3 rng(2) obtain s4 where "return_to_ship (ret e) ?s3 = Inr s4"
          using return_to_ship_total by blast
        with nr True show ?thesis by simp
      next
        case lc: False
        with False Cons.prems(1) have "recalled es" by (simp add: recalled_def)
        moreover from q3 Cons.prems(3) have "passable (locations (shared ?s3))"
          by (rule passable_quiet)
        ultimately have "\<exists>s'. ashore es ?s3 = Inr s'"
          using rngs alive3 by (intro Cons.IH)
        with nr lc show ?thesis by simp
      qed
    qed
    with False Cons.prems(4) i(1) go vis show ?thesis by simp
  qed
qed

lemmas run_defs = late_env_def Passenger_run_def example_thread_def example_env_def example_iter_def
  example_stay_def example_passenger_def attach_to_ship_def Passenger_init_def CruiseShip_init_def
  world_init_def Island_locations_def Location_init_def stats_init_def
  choose_activity_def choices_def activity_weight_def go_to_location_def choose_transport_def
  enter_location_def leave_location_def try_enter_def leave_def sleep_def say_def observe_def
  bump_def visit_def stay_in_activity_def rare_events_def delays_def incident_def got_drunk_def
  die_def return_to_ship_def after_loop_def SECONDS_PER_HOUR_def fatal_env_def

subsection \<open>Passenger: outcomes\<close>

lemma after_loop_simps:
  "me (after_loop s) = me s"
  "stats (shared (after_loop s)) = stats (shared s)"
  "locations (shared (after_loop s)) = locations (shared s)"
  "dead_passengers (shared (after_loop s)) = dead_passengers (shared s)"
  "stranded_passengers (shared (after_loop s)) =
     stranded_passengers (shared s) @ [p \<leftarrow> [me s]. \<not> on_board p \<and> \<not> is_dead p]"
  "trace (after_loop s) = trace s @ (if \<not> on_board (me s) \<and> \<not> is_dead (me s) then [Print STRANDED] else [])"
  by (simp_all add: after_loop_def)

lemma ashore_settled:
  assumes "ashore es s = Inr s'" "\<not> is_dead (me s)" "\<not> on_board (me s)"
  shows "settled s s'"
proof -
  from ashore_shape [OF assms(1,2)]
  consider (dead) "died s s'"
    | (exit) s1 where "quiet s s1" "s' = after_loop s1"
    | (recall) s1 s2 r where "quiet s s1" "return_to_ship r s1 = Inr s2" "s' = after_loop s2"
    by blast
  then show ?thesis
  proof cases
    case dead
    with assms(3) show ?thesis by (simp add: died_def kept_def settled_def)
  next
    case exit
    with assms(2,3) show ?thesis
      by (simp add: quiet_def kept_def settled_def after_loop_simps)
  next
    case recall
    from recall(1) assms(2) have alive: "\<not> is_dead (me s1)" by (simp add: quiet_def)
    note r = return_to_ship_alive [OF alive recall(2)]
    from recall(1) assms(2,3) show ?thesis
      unfolding recall(3)
      by (simp add: quiet_def kept_def settled_def after_loop_simps r)
  qed
qed

lemma Passenger_run_settled:
  assumes "Passenger_run env s = Inr s'" "fresh (me s)"
  shows "settled s s'"
proof -
  let ?s0 = "say ARRIVE ((say WAIT s)\<lparr>trace := trace (say WAIT s) @ [Wait Arrived]\<rparr>)"
  from assms have run: "ashore (iters env) ?s0 = Inr s'"
    by (simp add: Passenger_run_def fresh_def split: if_splits)
  from assms(2) have "\<not> is_dead (me ?s0)" "\<not> on_board (me ?s0)"
    by (simp_all add: fresh_def)
  with run have "settled ?s0 s'" by (rule ashore_settled)
  then show ?thesis by (simp add: settled_def)
qed

lemma Passenger_run_total:
  assumes "fresh (me s)" "fair env" "passable (locations (shared s))"
  shows "\<exists>s'. Passenger_run env s = Inr s'"
proof -
  let ?s0 = "say ARRIVE ((say WAIT s)\<lparr>trace := trace (say WAIT s) @ [Wait Arrived]\<rparr>)"
  from assms have "\<exists>s'. ashore (iters env) ?s0 = Inr s'"
    by (intro ashore_total) (simp_all add: fair_def fresh_def)
  with assms(1,2) show ?thesis
    by (simp add: Passenger_run_def fresh_def fair_def)
qed

subsection \<open>The end of the day\<close>

lemmas day_defs = swim_env_def beach_iter_def restaurant_iter_def swim_iter_def day_ships_def

lemmas ship_defs = CruiseShip_run_def CruiseShip_init_def ship_sleep_def set_event_def
  notify_last_call_def notify_departure_def SHIP_STAY_SECONDS_def LAST_CALL_SECONDS_def
  SHIP_STAY_HOURS_def SECONDS_PER_HOUR_def LAST_CALL_MINUTES_def ARRIVAL_WINDOW_START_def

lemma day_read_time: "main_reads_at day_ships = Inr 48"
  by (simp add: main_reads_at_def day_ships_def ship_defs)

lemma day_ship_log:
  "\<exists>sh. CruiseShip_run (CruiseShip_init 1 9) = Inr sh \<and>
        fired sh = [(5, Arrived), (85/2, LastCall), (45, Departed)]"
  by (simp add: ship_defs)

lemma swim_env_fair: "fair swim_env"
  by (simp add: fair_def recalled_def iter_in_range_def delays_in_range_def day_defs
      example_iter_def example_stay_def)

lemma swim_env_on_time:
  "list_all (stay_on_time example_passenger Island_locations) (iters swim_env)"
  by (simp add: stay_on_time_def dwell_on_time_def day_defs example_iter_def example_stay_def
      example_passenger_def attach_to_ship_def Passenger_init_def Island_locations_def
      Location_init_def SECONDS_PER_HOUR_def choose_activity_def choices_def activity_weight_def
      eval_nat_numeral)

lemma swim_run:
  "\<exists>s'. Passenger_run swim_env example_thread = Inr s' \<and>
     trace s' =
       [Print WAIT, Wait Arrived, Print ARRIVE] @
       concat (replicate 3
         ([IsSet Departed False, Print MOVE, Sleep (1/4), Print LOC_entered] @
          concat (replicate 20 [IsSet LastCall False, Sleep (1/2)]) @
          [Print LOC_left, IsSet LastCall False])) @
       [IsSet Departed False, Print MOVE, Sleep (6/5), Print LOC_entered] @
       concat (replicate 10 [IsSet LastCall False, Sleep (1/2)]) @
       [Print LOC_left, IsSet LastCall False] @
       [IsSet Departed False, Print MOVE, Sleep (11/5), Print LOC_entered, IsSet LastCall True,
        Print LATE_SWIM, Sleep 5, Print LOC_left, IsSet LastCall True,
        Print RETURN, Sleep (1/8), IsSet Departed True, Print MISS, Print STRANDED] \<and>
     \<not> on_board (me s') \<and> \<not> is_dead (me s') \<and>
     stranded_passengers (shared s') = [me s'] \<and> dead_passengers (shared s') = []"
  by (simp add: run_defs day_defs eval_nat_numeral)

text \<open>
  C1. The claim does not hold of the program's day: \<^verbatim>\<open>main\<close> waits for the ships and
  three more seconds, not for the passengers, whose threads are daemons. On the day of
  \<open>day_ships\<close> the last ship, ship 1, arrives at 5 s, calls at 42.5 s and leaves at 45 s,
  and \<^verbatim>\<open>main\<close> goes on to the tournament and the statistics at 48 s. The observations
  \<open>swim_env\<close> of passenger 1000 of ship 1 are fair; the stays are as long as the loop of
  the stay makes them, and every read of a signal gives what the ship's log says for its
  time. The thread starts its last pass of the loop at 41.95 s, before the last call,
  walks 2.2 s to the snorkeling excursion, struggles there for 5 s, takes the taxi back in
  1/8 s, finds the ship gone at 49.275 s, and only then is added to the stranded registry
  (the statement before the line \<open>STRANDED\<close>, the only line of an outcome in the trace).
  So at 48 s the passenger is not on board, not dead, and not yet in the stranded
  registry, which is empty: the passenger is in none of the three sets, and is missing from
  the tournament.
\<close>

theorem no_outcome_at_day_end:
  "\<exists>sh s'.
     main_reads_at day_ships = Inr 48 \<and>
     CruiseShip_run (CruiseShip_init 1 9) = Inr sh \<and>
     fair swim_env \<and>
     list_all (stay_on_time example_passenger Island_locations) (iters swim_env) \<and>
     Passenger_run swim_env example_thread = Inr s' \<and>
     on_schedule (fired sh) (stamps (fired sh) 0 (trace s')) \<and>
     outcomes_by 48 (stamps (fired sh) 0 (trace s')) = [] \<and>
     [x \<leftarrow> stamps (fired sh) 0 (trace s').
        snd x \<in> {Print BOARD, Print STRANDED, Print DEATH}] = [(1971/40, Print STRANDED)] \<and>
     \<not> on_board (me s') \<and> \<not> is_dead (me s') \<and>
     stranded_passengers (shared example_thread) = [] \<and>
     stranded_passengers (shared s') = [me s'] \<and> dead_passengers (shared s') = []"
proof -
  obtain sh where ship: "CruiseShip_run (CruiseShip_init 1 9) = Inr sh"
    and lg: "fired sh = [(5, Arrived), (85/2, LastCall), (45, Departed)]"
    using day_ship_log by blast
  obtain s' where run: "Passenger_run swim_env example_thread = Inr s'"
    and tr: "trace s' =
       [Print WAIT, Wait Arrived, Print ARRIVE] @
       concat (replicate 3
         ([IsSet Departed False, Print MOVE, Sleep (1/4), Print LOC_entered] @
          concat (replicate 20 [IsSet LastCall False, Sleep (1/2)]) @
          [Print LOC_left, IsSet LastCall False])) @
       [IsSet Departed False, Print MOVE, Sleep (6/5), Print LOC_entered] @
       concat (replicate 10 [IsSet LastCall False, Sleep (1/2)]) @
       [Print LOC_left, IsSet LastCall False] @
       [IsSet Departed False, Print MOVE, Sleep (11/5), Print LOC_entered, IsSet LastCall True,
        Print LATE_SWIM, Sleep 5, Print LOC_left, IsSet LastCall True,
        Print RETURN, Sleep (1/8), IsSet Departed True, Print MISS, Print STRANDED]"
    and fin: "\<not> on_board (me s')" "\<not> is_dead (me s')"
      "stranded_passengers (shared s') = [me s']" "dead_passengers (shared s') = []"
    using swim_run by blast
  have sched: "on_schedule (fired sh) (stamps (fired sh) 0 (trace s'))"
    unfolding lg tr by (simp add: on_schedule_def fire_time_def eval_nat_numeral)
  have none: "outcomes_by 48 (stamps (fired sh) 0 (trace s')) = []"
    unfolding lg tr by (simp add: outcomes_by_def fire_time_def eval_nat_numeral)
  have late: "[x \<leftarrow> stamps (fired sh) 0 (trace s').
        snd x \<in> {Print BOARD, Print STRANDED, Print DEATH}] = [(1971/40, Print STRANDED)]"
    unfolding lg tr by (simp add: fire_time_def eval_nat_numeral)
  have start: "stranded_passengers (shared example_thread) = []"
    by (simp add: example_thread_def world_init_def)
  from day_read_time ship swim_env_fair swim_env_on_time run sched none late fin(1,2) start fin(3,4)
  show ?thesis
    by (intro exI [of _ sh] exI [of _ s'] conjI)
qed

subsection \<open>Passenger: the return phase\<close>

lemma rare_events_death:
  assumes "rare_events loc_name e s = Inr s'" "\<not> is_dead (me s)" "is_dead (me s')"
  shows "cliff_roll e < 2/100 \<or> shark_roll e < 2/100"
proof (rule ccontr)
  assume "\<not> (cliff_roll e < 2/100 \<or> shark_roll e < 2/100)"
  then have "rare_events loc_name e s = delays loc_name e s"
    by (simp add: rare_events_def)
  with assms(1) have "quiet s s'" by (simp add: quiet_delays)
  with assms(2,3) show False by (simp add: quiet_def)
qed

lemma stay_in_activity_death:
  assumes "stay_in_activity e s = Inr s'" "\<not> is_dead (me s)" "is_dead (me s')"
  shows "cliff_roll e < 2/100 \<or> shark_roll e < 2/100"
proof (cases "current_location (me s)")
  case None
  with assms show ?thesis by (simp add: stay_in_activity_def)
next
  case (Some i)
  with assms(1,2) have "and_then (dwell (polls e) s)
            (\<lambda>(returned, s').
               if returned then Inr s'
               else rare_events (name (locations (shared s) ! i)) e s') = Inr s'"
    by (simp add: stay_in_activity_def)
  then obtain x where d: "dwell (polls e) s = Inr x"
    and rest: "(case x of (returned, s') \<Rightarrow>
               if returned then Inr s'
               else rare_events (name (locations (shared s) ! i)) e s') = Inr s'"
    by (rule and_thenE) (rule that)
  obtain returned s1 where x: "x = (returned, s1)" by (cases x)
  from d x have "quiet s s1" by (simp add: quiet_dwell)
  with assms(2) have alive: "\<not> is_dead (me s1)" by (simp add: quiet_def)
  show ?thesis
  proof (cases returned)
    case True
    with rest x have "s' = s1" by simp
    with alive assms(3) show ?thesis by simp
  next
    case False
    with rest x have "rare_events (name (locations (shared s) ! i)) e s1 = Inr s'" by simp
    from this alive assms(3) show ?thesis by (rule rare_events_death)
  qed
qed

lemma visit_death:
  assumes "visit e s = Inr (True, s')" "\<not> is_dead (me s)"
  shows "cliff_roll e < 2/100 \<or> shark_roll e < 2/100"
proof (cases "current_location (me s)")
  case None
  with assms show ?thesis by (simp add: visit_def)
next
  case (Some i)
  with assms(1) have "and_then (stay_in_activity e s)
            (\<lambda>s. if is_dead (me s) then Inr (True, s)
                 else Inr (False, leave_location i s)) = Inr (True, s')"
    by (simp add: visit_def)
  then obtain s1 where st: "stay_in_activity e s = Inr s1"
    and rest: "(if is_dead (me s1) then Inr (True, s1)
                 else Inr (False, leave_location i s1)) = (Inr (True, s') :: error + bool \<times> thread)"
    by (rule and_thenE) (rule that)
  from rest have "is_dead (me s1)" by (simp split: if_splits)
  with st assms(2) show ?thesis by (rule stay_in_activity_death)
qed

text \<open>
  How the loop ends: with the passenger's death, during a deadly stay; or at the first
  pass at which the passenger is told to come back, after the lines that follow the loop,
  and after the return phase when that pass did not see the departure at its start.
\<close>

lemma ashore_outcome:
  assumes "ashore es s = Inr s'" "\<not> is_dead (me s)"
  shows "(died s s' \<and> list_ex deadly es) \<or>
         (\<exists>e s1. first_call es = Some e \<and> quiet s s1 \<and>
            (if departed_head e then s' = after_loop s1
             else \<exists>s2. return_to_ship (ret e) s1 = Inr s2 \<and> s' = after_loop s2))"
  using assms
proof (induction es arbitrary: s)
  case Nil
  then show ?case by simp
next
  case (Cons e es)
  let ?s0 = "observe Departed (departed_head e) s"
  have q0: "quiet s ?s0" by (rule quiet_observe)
  show ?case
  proof (cases "departed_head e")
    case True
    with Cons.prems(1) have "s' = after_loop ?s0" by simp
    with True have "if departed_head e then s' = after_loop ?s0
             else \<exists>s2. return_to_ship (ret e) ?s0 = Inr s2 \<and> s' = after_loop s2"
      by (simp only: if_True)
    moreover from True have "first_call (e # es) = Some e" by (simp add: first_call_def)
    ultimately have "first_call (e # es) = Some e \<and> quiet s ?s0 \<and>
            (if departed_head e then s' = after_loop ?s0
             else \<exists>s2. return_to_ship (ret e) ?s0 = Inr s2 \<and> s' = after_loop s2)"
      using q0 by (intro conjI)
    then have "\<exists>e' s1. first_call (e # es) = Some e' \<and> quiet s s1 \<and>
            (if departed_head e' then s' = after_loop s1
             else \<exists>s2. return_to_ship (ret e') s1 = Inr s2 \<and> s' = after_loop s2)"
      by (intro exI [of _ e] exI [of _ ?s0])
    then show ?thesis ..
  next
    case False
    with Cons.prems have body:
      "and_then (choose_activity (me s) (locations (shared s)) (activity_draw e))
        (\<lambda>i. and_then (go_to_location i (transport_draw e) ?s0)
        (\<lambda>s. and_then (visit (stay e) s)
        (\<lambda>(returned, s).
           if returned then Inr s
           else if last_call_end e
           then and_then (return_to_ship (ret e) (observe LastCall (last_call_end e) s))
                  (\<lambda>s. Inr (after_loop s))
           else ashore es (observe LastCall (last_call_end e) s)))) = Inr s'"
      by simp
    then obtain i where
      "and_then (go_to_location i (transport_draw e) ?s0)
        (\<lambda>s. and_then (visit (stay e) s)
        (\<lambda>(returned, s).
           if returned then Inr s
           else if last_call_end e
           then and_then (return_to_ship (ret e) (observe LastCall (last_call_end e) s))
                  (\<lambda>s. Inr (after_loop s))
           else ashore es (observe LastCall (last_call_end e) s))) = Inr s'"
      by (rule and_thenE) (rule that)
    then obtain s1 where go: "go_to_location i (transport_draw e) ?s0 = Inr s1"
      and v: "and_then (visit (stay e) s1)
        (\<lambda>(returned, s).
           if returned then Inr s
           else if last_call_end e
           then and_then (return_to_ship (ret e) (observe LastCall (last_call_end e) s))
                  (\<lambda>s. Inr (after_loop s))
           else ashore es (observe LastCall (last_call_end e) s)) = Inr s'"
      by (rule and_thenE) (rule that)
    from v obtain x where vx: "visit (stay e) s1 = Inr x"
      and restx: "(case x of (returned, s) \<Rightarrow>
           if returned then Inr s
           else if last_call_end e
           then and_then (return_to_ship (ret e) (observe LastCall (last_call_end e) s))
                  (\<lambda>s. Inr (after_loop s))
           else ashore es (observe LastCall (last_call_end e) s)) = Inr s'"
      by (rule and_thenE) (rule that)
    obtain returned s2 where x: "x = (returned, s2)" by (cases x)
    from go have "quiet ?s0 s1" by (rule quiet_go_to_location)
    with q0 have q1: "quiet s s1" by (rule quiet_trans)
    with Cons.prems(2) have alive1: "\<not> is_dead (me s1)" by (simp add: quiet_def)
    from vx x alive1 have "(returned \<and> died s1 s2) \<or> (\<not> returned \<and> quiet s1 s2)"
      by (simp add: visit_cases)
    then show ?thesis
    proof
      assume r: "returned \<and> died s1 s2"
      with restx x have "s' = s2" "died s1 s2" by simp_all
      with q1 have d: "died s s'" by (simp add: quiet_died)
      from r vx x have "visit (stay e) s1 = Inr (True, s2)" by simp
      then have "deadly e" unfolding deadly_def using alive1 by (rule visit_death)
      then have "list_ex deadly (e # es)" by simp
      with d have "died s s' \<and> list_ex deadly (e # es)" ..
      then show ?thesis ..
    next
      assume nr: "\<not> returned \<and> quiet s1 s2"
      let ?s3 = "observe LastCall (last_call_end e) s2"
      from nr q1 have "quiet s s2" using quiet_trans by blast
      then have q3: "quiet s ?s3" by (rule quiet_trans) (rule quiet_observe)
      show ?thesis
      proof (cases "last_call_end e")
        case True
        with restx x nr have "and_then (return_to_ship (ret e) ?s3) (\<lambda>s. Inr (after_loop s)) = Inr s'"
          by simp
        then obtain s4 where "return_to_ship (ret e) ?s3 = Inr s4" "s' = after_loop s4"
          by (auto elim: and_thenE)
        then have "\<exists>s2. return_to_ship (ret e) ?s3 = Inr s2 \<and> s' = after_loop s2"
          by blast
        with False have "if departed_head e then s' = after_loop ?s3
             else \<exists>s2. return_to_ship (ret e) ?s3 = Inr s2 \<and> s' = after_loop s2"
          by (simp only: if_False)
        moreover from True have "first_call (e # es) = Some e" by (simp add: first_call_def)
        ultimately have "first_call (e # es) = Some e \<and> quiet s ?s3 \<and>
            (if departed_head e then s' = after_loop ?s3
             else \<exists>s2. return_to_ship (ret e) ?s3 = Inr s2 \<and> s' = after_loop s2)"
          using q3 by (intro conjI)
        then have "\<exists>e' s1. first_call (e # es) = Some e' \<and> quiet s s1 \<and>
            (if departed_head e' then s' = after_loop s1
             else \<exists>s2. return_to_ship (ret e') s1 = Inr s2 \<and> s' = after_loop s2)"
          by (intro exI [of _ e] exI [of _ ?s3])
        then show ?thesis ..
      next
        case no_call: False
        with restx x nr have rec: "ashore es ?s3 = Inr s'" by simp
        from q3 Cons.prems(2) have "\<not> is_dead (me ?s3)" by (simp add: quiet_def)
        from no_call False have fc: "first_call (e # es) = first_call es"
          by (simp add: first_call_def)
        from Cons.IH [OF rec \<open>\<not> is_dead (me ?s3)\<close>]
        show ?thesis
        proof (elim disjE exE conjE)
          assume d: "died ?s3 s'" and l: "list_ex deadly es"
          from q3 d have "died s s'" by (rule quiet_died)
          moreover from l have "list_ex deadly (e # es)" by simp
          ultimately have "died s s' \<and> list_ex deadly (e # es)" ..
          then show ?thesis ..
        next
          fix e' t
          assume f: "first_call es = Some e'" and q: "quiet ?s3 t"
            and c: "if departed_head e' then s' = after_loop t
             else \<exists>s2. return_to_ship (ret e') t = Inr s2 \<and> s' = after_loop s2"
          from f fc have "first_call (e # es) = Some e'" by simp
          moreover from q3 q have "quiet s t" by (rule quiet_trans)
          ultimately have "first_call (e # es) = Some e' \<and> quiet s t \<and>
            (if departed_head e' then s' = after_loop t
             else \<exists>s2. return_to_ship (ret e') t = Inr s2 \<and> s' = after_loop s2)"
            using c by (intro conjI)
          then have "\<exists>e' s1. first_call (e # es) = Some e' \<and> quiet s s1 \<and>
            (if departed_head e' then s' = after_loop s1
             else \<exists>s2. return_to_ship (ret e') s1 = Inr s2 \<and> s' = after_loop s2)"
            by (intro exI [of _ e'] exI [of _ t])
          then show ?thesis ..
        qed
      qed
    qed
  qed
qed

lemma ashore_return_phase:
  assumes "ashore es s = Inr s'" "\<not> is_dead (me s)" "\<not> on_board (me s)"
    and "me s = me s0" "shared s = shared s0" "trace s = trace s0 @ pre"
    and "outside_phase pre" "Print DRUNK \<notin> set pre"
  shows "\<exists>before.
           outside_phase before \<and>
           was_drunk (me s') = (was_drunk (me s0) \<or> Print DRUNK \<in> set before) \<and>
           (if is_dead (me s')
            then list_ex deadly es \<and>
                 trace s' = trace s0 @ before \<and> \<not> on_board (me s') \<and>
                 boarded (stats (shared s')) = boarded (stats (shared s0)) \<and>
                 stranded (stats (shared s')) = stranded (stats (shared s0)) \<and>
                 stranded_passengers (shared s') = stranded_passengers (shared s0)
            else \<exists>e. first_call es = Some e \<and>
                 (if departed_head e
                  then trace s' = trace s0 @ before @ [Print STRANDED] \<and>
                       \<not> on_board (me s') \<and>
                       boarded (stats (shared s')) = boarded (stats (shared s0)) \<and>
                       stranded (stats (shared s')) = stranded (stats (shared s0)) \<and>
                       stranded_passengers (shared s') = stranded_passengers (shared s0) @ [me s']
                  else trace s' = trace s0 @ before @
                         (if was_drunk (me s') \<and> react_roll (ret e) < 5/100
                          then [Print DRUNK_DELAY, Sleep (react_delay (ret e))] else []) @
                         [Print RETURN, Sleep (1/8), IsSet Departed (departed_seen (ret e))] @
                         (if departed_seen (ret e) then [Print MISS, Print STRANDED]
                          else [Print BOARD]) \<and>
                       on_board (me s') = (\<not> departed_seen (ret e)) \<and>
                       boarded (stats (shared s')) =
                         boarded (stats (shared s0)) + (if departed_seen (ret e) then 0 else 1) \<and>
                       stranded (stats (shared s')) =
                         stranded (stats (shared s0)) + (if departed_seen (ret e) then 1 else 0) \<and>
                       stranded_passengers (shared s') =
                         stranded_passengers (shared s0) @
                           (if departed_seen (ret e) then [me s'] else [])))"
proof -
  from ashore_outcome [OF assms(1,2)]
  consider (dead) "died s s'" "list_ex deadly es"
    | (call) e s1 where "first_call es = Some e" "quiet s s1"
        "if departed_head e then s' = after_loop s1
         else \<exists>s2. return_to_ship (ret e) s1 = Inr s2 \<and> s' = after_loop s2"
    by (elim disjE exE conjE)
  then show ?thesis
  proof cases
    case dead
    from dead(1) obtain xs where xs: "trace s' = trace s @ xs" "outside_phase xs"
      "was_drunk (me s') = (was_drunk (me s) \<or> Print DRUNK \<in> set xs)"
      unfolding died_def extends_def by blast
    from dead(1) have d: "is_dead (me s')" by (simp add: died_def)
    from xs(2) assms(7) have op: "outside_phase (pre @ xs)" by simp
    from xs(3) assms(4,8)
    have wd: "was_drunk (me s') = (was_drunk (me s0) \<or> Print DRUNK \<in> set (pre @ xs))" by simp
    from xs(1) assms(6) have tr: "trace s' = trace s0 @ pre @ xs" by simp
    from dead(1) assms(3,5) have rest: "\<not> on_board (me s')"
      "boarded (stats (shared s')) = boarded (stats (shared s0))"
      "stranded (stats (shared s')) = stranded (stats (shared s0))"
      "stranded_passengers (shared s') = stranded_passengers (shared s0)"
      by (simp_all add: died_def kept_def)
    show ?thesis
      by (rule exI [of _ "pre @ xs"]) (simp only: op wd d if_True dead(2) tr rest append_assoc simp_thms)
  next
    case call
    from call(2) obtain xs where xs: "trace s1 = trace s @ xs" "outside_phase xs"
      "was_drunk (me s1) = (was_drunk (me s) \<or> Print DRUNK \<in> set xs)"
      unfolding quiet_def extends_def by blast
    from call(2) assms(2,3,5) have s1: "\<not> is_dead (me s1)" "\<not> on_board (me s1)"
      "boarded (stats (shared s1)) = boarded (stats (shared s0))"
      "stranded (stats (shared s1)) = stranded (stats (shared s0))"
      "stranded_passengers (shared s1) = stranded_passengers (shared s0)"
      by (simp_all add: quiet_def kept_def)
    from xs(2) assms(7) have op: "outside_phase (pre @ xs)" by simp
    from xs(3) assms(4,8)
    have wd1: "was_drunk (me s1) = (was_drunk (me s0) \<or> Print DRUNK \<in> set (pre @ xs))" by simp
    from xs(1) assms(6) have tr1: "trace s1 = trace s0 @ pre @ xs" by simp
    show ?thesis
    proof (cases "departed_head e")
      case True
      with call(3) have s': "s' = after_loop s1" by simp
      have nd: "\<not> is_dead (me s')" and wd: "was_drunk (me s') = was_drunk (me s1)"
        unfolding s' using s1(1) by (simp_all add: after_loop_simps)
      have fin: "trace s' = trace s0 @ (pre @ xs) @ [Print STRANDED]"
        "\<not> on_board (me s')"
        "boarded (stats (shared s')) = boarded (stats (shared s0))"
        "stranded (stats (shared s')) = stranded (stats (shared s0))"
        "stranded_passengers (shared s') = stranded_passengers (shared s0) @ [me s']"
        unfolding s' using s1 tr1 by (simp_all add: after_loop_simps)
      from call(1) True fin have "\<exists>e. first_call es = Some e \<and>
                 (if departed_head e
                  then trace s' = trace s0 @ (pre @ xs) @ [Print STRANDED] \<and>
                       \<not> on_board (me s') \<and>
                       boarded (stats (shared s')) = boarded (stats (shared s0)) \<and>
                       stranded (stats (shared s')) = stranded (stats (shared s0)) \<and>
                       stranded_passengers (shared s') = stranded_passengers (shared s0) @ [me s']
                  else trace s' = trace s0 @ (pre @ xs) @
                         (if was_drunk (me s') \<and> react_roll (ret e) < 5/100
                          then [Print DRUNK_DELAY, Sleep (react_delay (ret e))] else []) @
                         [Print RETURN, Sleep (1/8), IsSet Departed (departed_seen (ret e))] @
                         (if departed_seen (ret e) then [Print MISS, Print STRANDED]
                          else [Print BOARD]) \<and>
                       on_board (me s') = (\<not> departed_seen (ret e)) \<and>
                       boarded (stats (shared s')) =
                         boarded (stats (shared s0)) + (if departed_seen (ret e) then 0 else 1) \<and>
                       stranded (stats (shared s')) =
                         stranded (stats (shared s0)) + (if departed_seen (ret e) then 1 else 0) \<and>
                       stranded_passengers (shared s') =
                         stranded_passengers (shared s0) @
                           (if departed_seen (ret e) then [me s'] else []))"
        by (intro exI [of _ e]) (simp only: if_True simp_thms)
      with op wd wd1 nd show ?thesis
        by (intro exI [of _ "pre @ xs"]) (simp only: if_False simp_thms)
    next
      case False
      with call(3) obtain s2 where ret: "return_to_ship (ret e) s1 = Inr s2"
        and s': "s' = after_loop s2" by auto
      note r = return_to_ship_alive [OF s1(1) ret]
      have nd: "\<not> is_dead (me s')" and wd: "was_drunk (me s') = was_drunk (me s1)"
        unfolding s' using s1(1) by (simp_all add: after_loop_simps r)
      have fin: "trace s' = trace s0 @ (pre @ xs) @
                         (if was_drunk (me s') \<and> react_roll (ret e) < 5/100
                          then [Print DRUNK_DELAY, Sleep (react_delay (ret e))] else []) @
                         [Print RETURN, Sleep (1/8), IsSet Departed (departed_seen (ret e))] @
                         (if departed_seen (ret e) then [Print MISS, Print STRANDED]
                          else [Print BOARD])"
        "on_board (me s') = (\<not> departed_seen (ret e))"
        "boarded (stats (shared s')) =
           boarded (stats (shared s0)) + (if departed_seen (ret e) then 0 else 1)"
        "stranded (stats (shared s')) =
           stranded (stats (shared s0)) + (if departed_seen (ret e) then 1 else 0)"
        "stranded_passengers (shared s') =
           stranded_passengers (shared s0) @ (if departed_seen (ret e) then [me s'] else [])"
        unfolding s' wd [unfolded s'] using s1 tr1 by (simp_all add: after_loop_simps r)
      from call(1) False fin have "\<exists>e. first_call es = Some e \<and>
                 (if departed_head e
                  then trace s' = trace s0 @ (pre @ xs) @ [Print STRANDED] \<and>
                       \<not> on_board (me s') \<and>
                       boarded (stats (shared s')) = boarded (stats (shared s0)) \<and>
                       stranded (stats (shared s')) = stranded (stats (shared s0)) \<and>
                       stranded_passengers (shared s') = stranded_passengers (shared s0) @ [me s']
                  else trace s' = trace s0 @ (pre @ xs) @
                         (if was_drunk (me s') \<and> react_roll (ret e) < 5/100
                          then [Print DRUNK_DELAY, Sleep (react_delay (ret e))] else []) @
                         [Print RETURN, Sleep (1/8), IsSet Departed (departed_seen (ret e))] @
                         (if departed_seen (ret e) then [Print MISS, Print STRANDED]
                          else [Print BOARD]) \<and>
                       on_board (me s') = (\<not> departed_seen (ret e)) \<and>
                       boarded (stats (shared s')) =
                         boarded (stats (shared s0)) + (if departed_seen (ret e) then 0 else 1) \<and>
                       stranded (stats (shared s')) =
                         stranded (stats (shared s0)) + (if departed_seen (ret e) then 1 else 0) \<and>
                       stranded_passengers (shared s') =
                         stranded_passengers (shared s0) @
                           (if departed_seen (ret e) then [me s'] else []))"
        by (intro exI [of _ e]) (simp only: if_False simp_thms)
      with op wd wd1 nd show ?thesis
        by (intro exI [of _ "pre @ xs"]) (simp only: if_False simp_thms)
    qed
  qed
qed

text \<open>
  C5. The thread of a passenger who starts alive, not on board and attached to a ship.
  It returns when the observations are fair and the locations passable. Whenever it
  returns, its trace has grown by a part \<open>before\<close>, free of the lines of the return phase
  (the late reaction, the return, boarding, missing the ship, being stranded), and by an
  end that the observations determine; \<open>was_drunk\<close> is set exactly when it was set at the
  start or the line of the bar's incident is in \<open>before\<close>.

  \<^item> The passenger is dead: a stay was deadly, nothing follows \<open>before\<close>, the passenger is
    not on board, and the two counters and the stranded registry are as at the start.
  \<^item> The passenger is alive. Then there is a first pass \<open>e\<close> of the loop at which the
    passenger is told to come back. If the loop's condition saw the departure there, the
    return phase has not run: the passenger is added to the stranded registry and no
    counter changes. Otherwise the end of the body saw the last call, and the return
    phase has run, once, as the end of the trace: first the reaction delay, exactly when
    the passenger was drunk and the roll is below 0.05; then the line of the return and the
    taxi's sleep of 1/8; then the read of the ship's \<open>departed\<close> signal. When the signal is
    not set, the passenger is on board and \<open>boarded\<close> is one more; when it is set,
    \<open>stranded\<close> is one more and the passenger is added once, at the end of the stranded
    registry.
\<close>

theorem return_phase_once:
  assumes "fresh (me s)"
  shows "(fair env \<and> passable (locations (shared s)) \<longrightarrow> (\<exists>s'. Passenger_run env s = Inr s')) \<and>
         (\<forall>s'. Passenger_run env s = Inr s' \<longrightarrow>
            (\<exists>before.
               outside_phase before \<and>
               was_drunk (me s') = (was_drunk (me s) \<or> Print DRUNK \<in> set before) \<and>
               (if is_dead (me s')
                then list_ex deadly (iters env) \<and>
                     trace s' = trace s @ before \<and> \<not> on_board (me s') \<and>
                     boarded (stats (shared s')) = boarded (stats (shared s)) \<and>
                     stranded (stats (shared s')) = stranded (stats (shared s)) \<and>
                     stranded_passengers (shared s') = stranded_passengers (shared s)
                else \<exists>e. first_call (iters env) = Some e \<and>
                     (if departed_head e
                      then trace s' = trace s @ before @ [Print STRANDED] \<and>
                           \<not> on_board (me s') \<and>
                           boarded (stats (shared s')) = boarded (stats (shared s)) \<and>
                           stranded (stats (shared s')) = stranded (stats (shared s)) \<and>
                           stranded_passengers (shared s') =
                             stranded_passengers (shared s) @ [me s']
                      else trace s' = trace s @ before @
                             (if was_drunk (me s') \<and> react_roll (ret e) < 5/100
                              then [Print DRUNK_DELAY, Sleep (react_delay (ret e))] else []) @
                             [Print RETURN, Sleep (1/8), IsSet Departed (departed_seen (ret e))] @
                             (if departed_seen (ret e) then [Print MISS, Print STRANDED]
                              else [Print BOARD]) \<and>
                           on_board (me s') = (\<not> departed_seen (ret e)) \<and>
                           boarded (stats (shared s')) =
                             boarded (stats (shared s)) + (if departed_seen (ret e) then 0 else 1) \<and>
                           stranded (stats (shared s')) =
                             stranded (stats (shared s)) + (if departed_seen (ret e) then 1 else 0) \<and>
                           stranded_passengers (shared s') =
                             stranded_passengers (shared s) @
                               (if departed_seen (ret e) then [me s'] else [])))))"
proof (intro conjI impI allI)
  assume "fair env \<and> passable (locations (shared s))"
  with assms show "\<exists>s'. Passenger_run env s = Inr s'"
    by (simp add: Passenger_run_total)
next
  fix s'
  assume run: "Passenger_run env s = Inr s'"
  let ?s0 = "say ARRIVE ((say WAIT s)\<lparr>trace := trace (say WAIT s) @ [Wait Arrived]\<rparr>)"
  let ?pre = "[Print WAIT, Wait Arrived, Print ARRIVE]"
  from run assms have a: "ashore (iters env) ?s0 = Inr s'"
    by (simp add: Passenger_run_def fresh_def split: if_splits)
  from assms have s0: "\<not> is_dead (me ?s0)" "\<not> on_board (me ?s0)"
    by (simp_all add: fresh_def)
  have eq: "me ?s0 = me s" "shared ?s0 = shared s" "trace ?s0 = trace s @ ?pre"
    by simp_all
  have pre: "outside_phase ?pre" "Print DRUNK \<notin> set ?pre"
    by simp_all
  from a s0 eq pre
  show "\<exists>before.
               outside_phase before \<and>
               was_drunk (me s') = (was_drunk (me s) \<or> Print DRUNK \<in> set before) \<and>
               (if is_dead (me s')
                then list_ex deadly (iters env) \<and>
                     trace s' = trace s @ before \<and> \<not> on_board (me s') \<and>
                     boarded (stats (shared s')) = boarded (stats (shared s)) \<and>
                     stranded (stats (shared s')) = stranded (stats (shared s)) \<and>
                     stranded_passengers (shared s') = stranded_passengers (shared s)
                else \<exists>e. first_call (iters env) = Some e \<and>
                     (if departed_head e
                      then trace s' = trace s @ before @ [Print STRANDED] \<and>
                           \<not> on_board (me s') \<and>
                           boarded (stats (shared s')) = boarded (stats (shared s)) \<and>
                           stranded (stats (shared s')) = stranded (stats (shared s)) \<and>
                           stranded_passengers (shared s') =
                             stranded_passengers (shared s) @ [me s']
                      else trace s' = trace s @ before @
                             (if was_drunk (me s') \<and> react_roll (ret e) < 5/100
                              then [Print DRUNK_DELAY, Sleep (react_delay (ret e))] else []) @
                             [Print RETURN, Sleep (1/8), IsSet Departed (departed_seen (ret e))] @
                             (if departed_seen (ret e) then [Print MISS, Print STRANDED]
                              else [Print BOARD]) \<and>
                           on_board (me s') = (\<not> departed_seen (ret e)) \<and>
                           boarded (stats (shared s')) =
                             boarded (stats (shared s)) + (if departed_seen (ret e) then 0 else 1) \<and>
                           stranded (stats (shared s')) =
                             stranded (stats (shared s)) + (if departed_seen (ret e) then 1 else 0) \<and>
                           stranded_passengers (shared s') =
                             stranded_passengers (shared s) @
                               (if departed_seen (ret e) then [me s'] else [])))"
    by (rule ashore_return_phase)
qed

theorem return_phase_once_witness:
  "fresh (me example_thread) \<and> fair example_env \<and>
   passable (locations (shared example_thread)) \<and>
   (\<exists>s' before.
      Passenger_run example_env example_thread = Inr s' \<and>
      outside_phase before \<and>
      trace s' = before @ [Print RETURN, Sleep (1/8), IsSet Departed False, Print BOARD] \<and>
      on_board (me s') \<and> \<not> is_dead (me s') \<and>
      boarded (stats (shared s')) = 1 \<and> stranded (stats (shared s')) = 0 \<and>
      stranded_passengers (shared s') = [])"
proof -
  have h: "fresh (me example_thread)"
    by (simp add: fresh_def example_thread_def example_passenger_def attach_to_ship_def
        Passenger_init_def)
  have pre: "fair example_env \<and> passable (locations (shared example_thread))"
    by (simp add: fair_def recalled_def iter_in_range_def delays_in_range_def passable_def
        example_thread_def example_env_def example_iter_def example_stay_def world_init_def
        Island_locations_def Location_init_def)
  have start: "trace example_thread = []" "boarded (stats (shared example_thread)) = 0"
    "stranded (stats (shared example_thread)) = 0"
    "stranded_passengers (shared example_thread) = []"
    by (simp_all add: example_thread_def world_init_def stats_init_def)
  have safe: "\<not> list_ex deadly (iters example_env)"
    by (simp add: deadly_def example_env_def example_iter_def example_stay_def)
  have fc: "first_call (iters example_env) = Some example_iter"
    by (simp add: first_call_def example_env_def example_iter_def)
  have it: "\<not> departed_head example_iter" "\<not> departed_seen (ret example_iter)"
    "\<not> react_roll (ret example_iter) < 5/100"
    by (simp_all add: example_iter_def)
  note t = return_phase_once [OF h, of example_env]
  from t [THEN conjunct1, rule_format, OF pre]
  obtain s' where run: "Passenger_run example_env example_thread = Inr s'" ..
  from t [THEN conjunct2, rule_format, OF run]
  obtain before where b: "outside_phase before"
    and w: "was_drunk (me s') = (was_drunk (me example_thread) \<or> Print DRUNK \<in> set before)"
    and c: "if is_dead (me s')
        then list_ex deadly (iters example_env) \<and>
             trace s' = trace example_thread @ before \<and> \<not> on_board (me s') \<and>
             boarded (stats (shared s')) = boarded (stats (shared example_thread)) \<and>
             stranded (stats (shared s')) = stranded (stats (shared example_thread)) \<and>
             stranded_passengers (shared s') = stranded_passengers (shared example_thread)
        else \<exists>e. first_call (iters example_env) = Some e \<and>
             (if departed_head e
              then trace s' = trace example_thread @ before @ [Print STRANDED] \<and>
                   \<not> on_board (me s') \<and>
                   boarded (stats (shared s')) = boarded (stats (shared example_thread)) \<and>
                   stranded (stats (shared s')) = stranded (stats (shared example_thread)) \<and>
                   stranded_passengers (shared s') =
                     stranded_passengers (shared example_thread) @ [me s']
              else trace s' = trace example_thread @ before @
                     (if was_drunk (me s') \<and> react_roll (ret e) < 5/100
                      then [Print DRUNK_DELAY, Sleep (react_delay (ret e))] else []) @
                     [Print RETURN, Sleep (1/8), IsSet Departed (departed_seen (ret e))] @
                     (if departed_seen (ret e) then [Print MISS, Print STRANDED]
                      else [Print BOARD]) \<and>
                   on_board (me s') = (\<not> departed_seen (ret e)) \<and>
                   boarded (stats (shared s')) =
                     boarded (stats (shared example_thread)) +
                       (if departed_seen (ret e) then 0 else 1) \<and>
                   stranded (stats (shared s')) =
                     stranded (stats (shared example_thread)) +
                       (if departed_seen (ret e) then 1 else 0) \<and>
                   stranded_passengers (shared s') =
                     stranded_passengers (shared example_thread) @
                       (if departed_seen (ret e) then [me s'] else []))"
    by (elim exE conjE)
  from c safe have alive: "\<not> is_dead (me s')"
    by (auto split: if_splits)
  from c alive fc it start have fin:
    "trace s' = before @ [Print RETURN, Sleep (1/8), IsSet Departed False, Print BOARD]"
    "on_board (me s')" "boarded (stats (shared s')) = 1" "stranded (stats (shared s')) = 0"
    "stranded_passengers (shared s') = []"
    by simp_all
  from h pre run b fin alive show ?thesis
    by (intro conjI exI [of _ s'] exI [of _ before]) simp_all
qed

text \<open>
  C9. The taxi's travel time for the distance 0.5 is 1/8, and this is the sleep of the
  return to the ship of every living passenger, whatever location \<open>c\<close> the passenger's
  \<open>current_location\<close> refers to and whatever the island's locations \<open>ls\<close> and their
  distances are.
\<close>

theorem return_travel_fixed:
  assumes "\<not> is_dead (me s)" and "0 \<le> react_delay r"
  shows "travel_time (TRANSPORT_STRATEGIES taxi) (1/2) = 1/8 \<and>
         (\<exists>s'. return_to_ship r
                 (s\<lparr>me := (me s)\<lparr>current_location := c\<rparr>,
                    shared := (shared s)\<lparr>locations := ls\<rparr>\<rparr>) = Inr s' \<and>
               trace s' = trace s @
                 (if was_drunk (me s) \<and> react_roll r < 5/100
                  then [Print DRUNK_DELAY, Sleep (react_delay r)] else []) @
                 [Print RETURN, Sleep (1/8), IsSet Departed (departed_seen r),
                  Print (if departed_seen r then MISS else BOARD)])"
proof -
  let ?s = "s\<lparr>me := (me s)\<lparr>current_location := c\<rparr>, shared := (shared s)\<lparr>locations := ls\<rparr>\<rparr>"
  from assms have alive: "\<not> is_dead (me ?s)" by simp
  with assms(2) obtain s' where run: "return_to_ship r ?s = Inr s'"
    using return_to_ship_total by blast
  from return_to_ship_alive(3) [OF alive run] run show ?thesis by simp
qed

theorem return_travel_fixed_witness:
  "\<not> is_dead (me example_thread) \<and>
   (0::rat) \<le> react_delay \<lparr>react_roll = 1/2, react_delay = 1, departed_seen = False\<rparr> \<and>
   travel_time (TRANSPORT_STRATEGIES taxi) (1/2) = 1/8 \<and>
   (\<exists>s'. return_to_ship \<lparr>react_roll = 1/2, react_delay = 1, departed_seen = False\<rparr>
            (example_thread\<lparr>me := (me example_thread)\<lparr>current_location := Some 6\<rparr>,
               shared := (shared example_thread)\<lparr>locations := []\<rparr>\<rparr>) = Inr s' \<and>
          trace s' = [Print RETURN, Sleep (1/8), IsSet Departed False, Print BOARD])"
proof -
  let ?r = "\<lparr>react_roll = 1/2, react_delay = 1, departed_seen = False\<rparr>"
  have h1: "\<not> is_dead (me example_thread)"
    by (simp add: example_thread_def example_passenger_def attach_to_ship_def Passenger_init_def)
  have h2: "(0::rat) \<le> react_delay ?r" by simp
  have t: "trace example_thread = []" "\<not> was_drunk (me example_thread)"
    by (simp_all add: example_thread_def example_passenger_def attach_to_ship_def Passenger_init_def)
  from return_travel_fixed [OF h1 h2, where c = "Some 6" and ls = "[]"] h1 h2 t show ?thesis
    by simp
qed

subsection \<open>Passenger: the locations, and death during a stay\<close>

lemma same_places_refl [simp]: "same_places s s"
  by (simp add: same_places_def)

lemma same_places_trans [trans]: "same_places s t \<Longrightarrow> same_places t u \<Longrightarrow> same_places s u"
  by (simp add: same_places_def)

lemma same_places_say: "same_places s (say tg s)"
  by (simp add: same_places_def)

lemma same_places_observe: "same_places s (observe sg b s)"
  by (simp add: same_places_def)

lemma same_places_bump: "same_places s (bump f s)"
  by (simp add: same_places_def)

lemma same_places_sleep: "sleep d s = Inr s' \<Longrightarrow> same_places s s'"
  by (auto simp: sleep_eq_Inr same_places_def)

lemma same_places_dwell: "dwell bs s = Inr (b, s') \<Longrightarrow> same_places s s'"
proof (induction bs arbitrary: s)
  case Nil
  then show ?case by simp
next
  case (Cons x bs)
  show ?case
  proof (cases "is_dead (me s) \<or> x")
    case True
    with Cons.prems show ?thesis by (auto simp: same_places_observe split: if_splits)
  next
    case False
    with Cons.prems have "and_then (sleep (1/2) (observe LastCall x s)) (dwell bs) = Inr (b, s')"
      by simp
    then obtain s1 where s1: "sleep (1/2) (observe LastCall x s) = Inr s1"
      and d: "dwell bs s1 = Inr (b, s')"
      by (rule and_thenE) (rule that)
    have "same_places s (observe LastCall x s)" by (rule same_places_observe)
    also have "same_places (observe LastCall x s) s1" using s1 by (rule same_places_sleep)
    also have "same_places s1 s'" using d by (rule Cons.IH)
    finally show ?thesis .
  qed
qed

lemma same_places_incident:
  assumes "incident here roll prob extra key tg s = Inr s'"
  shows "same_places s s'"
proof (cases "here \<and> roll < prob")
  case True
  with assms have sl: "sleep extra (say tg (bump key s)) = Inr s'"
    by (simp add: incident_def)
  have "same_places s (bump key s)" by (rule same_places_bump)
  also have "same_places (bump key s) (say tg (bump key s))" by (rule same_places_say)
  also have "same_places (say tg (bump key s)) s'" using sl by (rule same_places_sleep)
  finally show ?thesis .
next
  case False
  with assms show ?thesis by (auto simp: incident_def)
qed

lemma same_places_got_drunk:
  assumes "got_drunk loc_name e s = Inr s'"
  shows "same_places s s'"
proof (cases "contains ''bar'' loc_name \<and> drunk_roll e < 7/100")
  case True
  with assms obtain s1 where sl: "sleep (drunk_extra e) (say DRUNK (bump drunk_update s)) = Inr s1"
    and s': "s' = s1\<lparr>me := (me s1)\<lparr>was_drunk := True\<rparr>\<rparr>"
    by (auto simp: got_drunk_def and_then_eq_Inr)
  have "same_places s (bump drunk_update s)" by (rule same_places_bump)
  also have "same_places (bump drunk_update s) (say DRUNK (bump drunk_update s))"
    by (rule same_places_say)
  also have "same_places (say DRUNK (bump drunk_update s)) s1" using sl by (rule same_places_sleep)
  also have "same_places s1 s'" unfolding s' by (simp add: same_places_def)
  finally show ?thesis .
next
  case False
  with assms show ?thesis by (auto simp: got_drunk_def)
qed

lemma same_places_delays:
  assumes "delays loc_name e s = Inr s'"
  shows "same_places s s'"
proof -
  from assms obtain s1 s2 s3 s4 s5 where
    1: "incident (contains ''restaurant'' loc_name) (intox_roll e) (5/100) (intox_extra e)
                 intoxicated_update INTOXICATED s = Inr s1"
    and 2: "got_drunk loc_name e s1 = Inr s2"
    and 3: "incident (loc_name = ''shopping_street'') (popup_roll e) (4/100) (popup_extra e)
                 popup_delay_update POP_UP s2 = Inr s3"
    and 4: "incident (loc_name = ''hiking_excursion'') (lost_roll e) (3/100) (lost_extra e)
                 lost_hiking_update LOST s3 = Inr s4"
    and 5: "incident (loc_name = ''snorkeling_excursion'') (snorkel_roll e) (3/100)
                 (snorkel_extra e) snorkel_delay_update LATE_SWIM s4 = Inr s5"
    and 6: "incident (loc_name = ''paradise_beach'') (asleep_roll e) (4/100) (asleep_extra e)
                 fell_asleep_update ASLEEP s5 = Inr s'"
    unfolding delays_def and_then_eq_Inr by blast
  have "same_places s s1" using 1 by (rule same_places_incident)
  also have "same_places s1 s2" using 2 by (rule same_places_got_drunk)
  also have "same_places s2 s3" using 3 by (rule same_places_incident)
  also have "same_places s3 s4" using 4 by (rule same_places_incident)
  also have "same_places s4 s5" using 5 by (rule same_places_incident)
  also have "same_places s5 s'" using 6 by (rule same_places_incident)
  finally show ?thesis .
qed

lemma same_places_die: "same_places s (die cause s)"
  by (simp add: same_places_def die_def)

lemma same_places_rare_events:
  assumes "rare_events loc_name e s = Inr s'"
  shows "same_places s s'"
proof (cases "loc_name = ''hiking_excursion'' \<and> cliff_roll e < 2/100")
  case True
  then have "rare_events loc_name e s = Inr (die died_cliff_update s)"
    unfolding rare_events_def by (rule if_P)
  with assms have "s' = die died_cliff_update s" by simp
  then show ?thesis by (simp add: same_places_die)
next
  case no_cliff: False
  show ?thesis
  proof (cases "loc_name = ''snorkeling_excursion'' \<and> shark_roll e < 2/100")
    case True
    with no_cliff have "rare_events loc_name e s = Inr (die died_shark_update s)"
      unfolding rare_events_def by simp
    with assms have "s' = die died_shark_update s" by simp
    then show ?thesis by (simp add: same_places_die)
  next
    case False
    with no_cliff have "rare_events loc_name e s = delays loc_name e s"
      unfolding rare_events_def by (simp only: if_False)
    with assms have "delays loc_name e s = Inr s'" by simp
    then show ?thesis by (rule same_places_delays)
  qed
qed

lemma same_places_stay_in_activity:
  assumes "stay_in_activity e s = Inr s'"
  shows "same_places s s'"
proof (cases "is_dead (me s)")
  case True
  with assms show ?thesis by (simp add: stay_in_activity_def)
next
  case alive: False
  show ?thesis
  proof (cases "current_location (me s)")
    case None
    with assms alive show ?thesis by (simp add: stay_in_activity_def)
  next
    case (Some i)
    with assms alive have "and_then (dwell (polls e) s)
            (\<lambda>(returned, s').
               if returned then Inr s'
               else rare_events (name (locations (shared s) ! i)) e s') = Inr s'"
      by (simp add: stay_in_activity_def)
    then obtain x where d: "dwell (polls e) s = Inr x"
      and rest: "(case x of (returned, s') \<Rightarrow>
               if returned then Inr s'
               else rare_events (name (locations (shared s) ! i)) e s') = Inr s'"
      by (rule and_thenE) (rule that)
    obtain returned s1 where x: "x = (returned, s1)" by (cases x)
    from d x have q: "same_places s s1" by (simp add: same_places_dwell)
    show ?thesis
    proof (cases returned)
      case True
      with rest x have "s' = s1" by simp
      with q show ?thesis by simp
    next
      case False
      with rest x have "rare_events (name (locations (shared s) ! i)) e s1 = Inr s'" by simp
      then have "same_places s1 s'" by (rule same_places_rare_events)
      with q show ?thesis by (rule same_places_trans)
    qed
  qed
qed

lemma same_places_return_to_ship:
  assumes "return_to_ship r s = Inr s'"
  shows "same_places s s'"
proof (cases "is_dead (me s)")
  case True
  with assms show ?thesis by (simp add: return_to_ship_def)
next
  case False
  from return_to_ship_alive(1,2) [OF False assms] show ?thesis
    by (simp add: same_places_def)
qed

lemma same_places_after_loop: "same_places s (after_loop s)"
  by (simp add: same_places_def after_loop_simps)

lemma leave_after_enter:
  "fst (try_enter l pid) \<Longrightarrow> leave (snd (try_enter l pid)) pid = l"
  by (simp add: try_enter_def leave_def split: if_splits)

lemma choose_activity_range:
  assumes "choose_activity p locs u = Inr i"
  shows "i < length locs"
proof -
  from assms have ne: "locs \<noteq> []"
    by (auto simp: choose_activity_def choices_def split: if_splits)
  then obtain j where "choose_activity p locs u = Inr j" "j < length locs"
    using choose_activity_total by blast
  with assms show ?thesis by simp
qed

text \<open>One pass of the loop's body up to the test of the last call.\<close>

lemma go_and_visit:
  assumes go: "go_to_location i m s = Inr s1"
    and vis: "visit e s1 = Inr (returned, s2)"
    and alive: "\<not> is_dead (me s)"
    and nowhere: "current_location (me s) = None"
    and i: "i < length (locations (shared s))"
  shows "if returned
         then current_location (me s2) = Some i \<and>
              fst (try_enter (locations (shared s) ! i) (passenger_id (me s))) \<and>
              locations (shared s2) =
                (locations (shared s))
                  [i := snd (try_enter (locations (shared s) ! i) (passenger_id (me s)))]
         else current_location (me s2) = None \<and> locations (shared s2) = locations (shared s)"
proof -
  let ?locs = "locations (shared s)" and ?pid = "passenger_id (me s)"
  let ?s0 = "say MOVE (choose_transport m s)"
  from go alive obtain t where sl: "sleep (travel_time (transport_strategy (me (choose_transport m s)))
                       (distance (?locs ! i))) ?s0 = Inr t"
    and s1: "s1 = enter_location i t"
    by (auto simp: go_to_location_def and_then_eq_Inr)
  have "same_places s ?s0" by (simp add: same_places_def choose_transport_def)
  also have "same_places ?s0 t" using sl by (rule same_places_sleep)
  finally have t: "locations (shared t) = ?locs" "current_location (me t) = None"
    using nowhere by (simp_all add: same_places_def)
  have pid: "passenger_id (me t) = ?pid"
    using sl by (auto simp: sleep_eq_Inr choose_transport_def)
  have alive1: "\<not> is_dead (me s1)"
    using quiet_go_to_location [OF go] alive by (simp add: quiet_def)
  show ?thesis
  proof (cases "fst (try_enter (?locs ! i) ?pid)")
    case False
    with s1 t pid have "s1 = t" by (simp add: enter_location_def)
    with t vis show ?thesis by (simp add: visit_def)
  next
    case True
    with s1 t pid have e1: "current_location (me s1) = Some i"
      "locations (shared s1) = ?locs[i := snd (try_enter (?locs ! i) ?pid)]"
      "passenger_id (me s1) = ?pid"
      by (simp_all add: enter_location_def)
    from vis e1(1) have "and_then (stay_in_activity e s1)
            (\<lambda>s. if is_dead (me s) then Inr (True, s)
                 else Inr (False, leave_location i s)) = Inr (returned, s2)"
      by (simp add: visit_def)
    then obtain u where st: "stay_in_activity e s1 = Inr u"
      and rest: "(if is_dead (me u) then Inr (True, u)
                 else Inr (False, leave_location i u)) = (Inr (returned, s2) :: error + bool \<times> thread)"
      by (rule and_thenE) (rule that)
    from st have sp: "same_places s1 u" by (rule same_places_stay_in_activity)
    from st have "quiet s1 u \<or> died s1 u" by (rule stay_in_activity_cases)
    then have pidu: "passenger_id (me u) = ?pid"
      using e1(3) by (auto simp: quiet_def died_def kept_def)
    show ?thesis
    proof (cases "is_dead (me u)")
      case dead: True
      with rest have "returned" "s2 = u" by simp_all
      with sp e1 True show ?thesis by (simp add: same_places_def)
    next
      case False
      with rest have r: "\<not> returned" "s2 = leave_location i u" by simp_all
      from sp e1 have u: "locations (shared u) = ?locs[i := snd (try_enter (?locs ! i) ?pid)]"
        by (simp add: same_places_def)
      have "locations (shared s2) = ?locs[i := leave (snd (try_enter (?locs ! i) ?pid)) ?pid]"
        unfolding r(2) using u pidu i by (simp add: leave_location_def)
      also have "\<dots> = ?locs" using True by (simp add: leave_after_enter)
      finally have "locations (shared s2) = ?locs" .
      moreover have "current_location (me s2) = None"
        unfolding r(2) by (simp add: leave_location_def)
      ultimately show ?thesis using r(1) by simp
    qed
  qed
qed

lemma ashore_places:
  assumes "ashore es s = Inr s'" "\<not> is_dead (me s)" "current_location (me s) = None"
  shows "if is_dead (me s')
         then \<exists>i<length (locations (shared s)).
                current_location (me s') = Some i \<and>
                fst (try_enter (locations (shared s) ! i) (passenger_id (me s))) \<and>
                locations (shared s') =
                  (locations (shared s))
                    [i := snd (try_enter (locations (shared s) ! i) (passenger_id (me s)))]
         else current_location (me s') = None \<and> locations (shared s') = locations (shared s)"
  using assms
proof (induction es arbitrary: s)
  case Nil
  then show ?case by simp
next
  case (Cons e es)
  let ?s0 = "observe Departed (departed_head e) s"
  show ?case
  proof (cases "departed_head e")
    case True
    with Cons.prems(1) have "s' = after_loop ?s0" by simp
    with Cons.prems(2,3) show ?thesis by (simp add: after_loop_simps)
  next
    case False
    with Cons.prems have body:
      "and_then (choose_activity (me s) (locations (shared s)) (activity_draw e))
        (\<lambda>i. and_then (go_to_location i (transport_draw e) ?s0)
        (\<lambda>s. and_then (visit (stay e) s)
        (\<lambda>(returned, s).
           if returned then Inr s
           else if last_call_end e
           then and_then (return_to_ship (ret e) (observe LastCall (last_call_end e) s))
                  (\<lambda>s. Inr (after_loop s))
           else ashore es (observe LastCall (last_call_end e) s)))) = Inr s'"
      by simp
    then obtain i where ch: "choose_activity (me s) (locations (shared s)) (activity_draw e) = Inr i"
      and g: "and_then (go_to_location i (transport_draw e) ?s0)
        (\<lambda>s. and_then (visit (stay e) s)
        (\<lambda>(returned, s).
           if returned then Inr s
           else if last_call_end e
           then and_then (return_to_ship (ret e) (observe LastCall (last_call_end e) s))
                  (\<lambda>s. Inr (after_loop s))
           else ashore es (observe LastCall (last_call_end e) s))) = Inr s'"
      by (rule and_thenE) (rule that)
    from g obtain s1 where go: "go_to_location i (transport_draw e) ?s0 = Inr s1"
      and v: "and_then (visit (stay e) s1)
        (\<lambda>(returned, s).
           if returned then Inr s
           else if last_call_end e
           then and_then (return_to_ship (ret e) (observe LastCall (last_call_end e) s))
                  (\<lambda>s. Inr (after_loop s))
           else ashore es (observe LastCall (last_call_end e) s)) = Inr s'"
      by (rule and_thenE) (rule that)
    from v obtain x where vx: "visit (stay e) s1 = Inr x"
      and restx: "(case x of (returned, s) \<Rightarrow>
           if returned then Inr s
           else if last_call_end e
           then and_then (return_to_ship (ret e) (observe LastCall (last_call_end e) s))
                  (\<lambda>s. Inr (after_loop s))
           else ashore es (observe LastCall (last_call_end e) s)) = Inr s'"
      by (rule and_thenE) (rule that)
    obtain returned s2 where x: "x = (returned, s2)" by (cases x)
    from ch have i: "i < length (locations (shared s))" by (rule choose_activity_range)
    from go have "quiet ?s0 s1" by (rule quiet_go_to_location)
    with quiet_observe have q1: "quiet s s1" by (rule quiet_trans)
    with Cons.prems(2) have alive1: "\<not> is_dead (me s1)" by (simp add: quiet_def)
    from vx x alive1 have vc: "(returned \<and> died s1 s2) \<or> (\<not> returned \<and> quiet s1 s2)"
      by (simp add: visit_cases)
    from vx x have vis: "visit (stay e) s1 = Inr (returned, s2)" by simp
    from go_and_visit [OF go vis] Cons.prems(2,3) i
    have gv: "if returned
         then current_location (me s2) = Some i \<and>
              fst (try_enter (locations (shared s) ! i) (passenger_id (me s))) \<and>
              locations (shared s2) =
                (locations (shared s))
                  [i := snd (try_enter (locations (shared s) ! i) (passenger_id (me s)))]
         else current_location (me s2) = None \<and> locations (shared s2) = locations (shared s)"
      by (simp cong: if_cong)
    show ?thesis
    proof (cases returned)
      case True
      with vc have "is_dead (me s2)" by (simp add: died_def)
      moreover from True restx x have "s' = s2" by simp
      ultimately show ?thesis using gv True i by auto
    next
      case nr: False
      with vc have q2: "quiet s1 s2" by simp
      with q1 have q: "quiet s s2" by (rule quiet_trans)
      let ?s3 = "observe LastCall (last_call_end e) s2"
      from q Cons.prems(2) have s3: "\<not> is_dead (me ?s3)" "passenger_id (me ?s3) = passenger_id (me s)"
        by (simp_all add: quiet_def kept_def)
      from gv nr have p3: "current_location (me ?s3) = None"
        "locations (shared ?s3) = locations (shared s)"
        by simp_all
      show ?thesis
      proof (cases "last_call_end e")
        case True
        with restx x nr have "and_then (return_to_ship (ret e) ?s3) (\<lambda>s. Inr (after_loop s)) = Inr s'"
          by simp
        then obtain s4 where r: "return_to_ship (ret e) ?s3 = Inr s4" and s': "s' = after_loop s4"
          by (rule and_thenE) (simp add: that)
        from r have "same_places ?s3 s4" by (rule same_places_return_to_ship)
        moreover from return_to_ship_alive(1) [OF s3(1) r] s3(1) have "\<not> is_dead (me s4)"
          by (simp split: if_splits)
        ultimately show ?thesis
          unfolding s' using p3 by (simp add: same_places_def after_loop_simps)
      next
        case False
        with restx x nr have rec: "ashore es ?s3 = Inr s'" by simp
        from Cons.IH [OF rec s3(1) p3(1)] show ?thesis
          by (simp only: p3(2) s3(2))
      qed
    qed
  qed
qed

text \<open>
  C2 says that the slot of a passenger who dies during a stay is released. The code does
  not release it: \<^verbatim>\<open>run\<close> returns on \<^verbatim>\<open>is_dead\<close> before it calls \<open>leave\<close>.
  Whenever the thread of a passenger who starts alive and at no location ends with the
  passenger dead, \<open>current_location\<close> still refers to a location \<open>i\<close>; the locations
  are those of the start but for the passenger's successful \<open>try_enter\<close> at \<open>i\<close>, so
  the occupancy of \<open>i\<close> is one more than at the start (every earlier stay of the thread was
  answered by its \<open>leave\<close>, the last one was not).
\<close>

theorem death_keeps_the_slot:
  assumes "Passenger_run env s = Inr s'"
    and "\<not> is_dead (me s)" and "current_location (me s) = None"
    and "is_dead (me s')"
  shows "\<exists>i<length (locations (shared s)).
           current_location (me s') = Some i \<and>
           fst (try_enter (locations (shared s) ! i) (passenger_id (me s))) \<and>
           locations (shared s') =
             (locations (shared s))
               [i := snd (try_enter (locations (shared s) ! i) (passenger_id (me s)))] \<and>
           count (locations (shared s') ! i) = count (locations (shared s) ! i) + 1"
proof -
  let ?s0 = "say ARRIVE ((say WAIT s)\<lparr>trace := trace (say WAIT s) @ [Wait Arrived]\<rparr>)"
  have nd: "ship (me s) \<noteq> None"
  proof
    assume "ship (me s) = None"
    with assms(1) have "s' = s" by (simp add: Passenger_run_def)
    with assms(2,4) show False by simp
  qed
  with assms(1,2) have run: "ashore (iters env) ?s0 = Inr s'"
    by (simp add: Passenger_run_def split: if_splits)
  have s0: "\<not> is_dead (me ?s0)" "current_location (me ?s0) = None"
    using assms(2,3) by simp_all
  from ashore_places [OF run s0] assms(4) obtain i where
    i: "i < length (locations (shared s))"
    and c: "current_location (me s') = Some i"
    and ok: "fst (try_enter (locations (shared s) ! i) (passenger_id (me s)))"
    and l: "locations (shared s') =
             (locations (shared s))
               [i := snd (try_enter (locations (shared s) ! i) (passenger_id (me s)))]"
    by auto
  from ok have "count (snd (try_enter (locations (shared s) ! i) (passenger_id (me s)))) =
      count (locations (shared s) ! i) + 1"
    by (simp add: try_enter_def split: if_splits)
  with l i have "count (locations (shared s') ! i) = count (locations (shared s) ! i) + 1"
    by simp
  with i c ok l show ?thesis by blast
qed

theorem death_keeps_the_slot_witness:
  "\<exists>s'. Passenger_run fatal_env example_thread = Inr s' \<and>
        \<not> is_dead (me example_thread) \<and> current_location (me example_thread) = None \<and>
        is_dead (me s') \<and> dead_passengers (shared s') = [me s'] \<and>
        died_cliff (stats (shared s')) = 1 \<and>
        current_location (me s') = Some 5 \<and>
        name (locations (shared s') ! 5) = ''hiking_excursion'' \<and>
        count (locations (shared example_thread) ! 5) = 0 \<and>
        count (locations (shared s') ! 5) = 1 \<and>
        trace s' = [Print WAIT, Wait Arrived, Print ARRIVE, IsSet Departed False,
                    Print MOVE, Sleep (1/2), Print LOC_entered,
                    IsSet LastCall False, Sleep (1/2), IsSet LastCall True, Print DEATH]"
proof -
  obtain s' where run: "Passenger_run fatal_env example_thread = Inr s'"
    and h: "\<not> is_dead (me example_thread)" "current_location (me example_thread) = None"
      "is_dead (me s')"
    and more: "dead_passengers (shared s') = [me s']" "died_cliff (stats (shared s')) = 1"
      "name (locations (shared s') ! 5) = ''hiking_excursion''"
      "count (locations (shared example_thread) ! 5) = 0"
      "length (locations (shared example_thread)) = 8"
      "map count (locations (shared s')) = [0, 0, 0, 0, 0, 1, 0, 0]"
      "trace s' = [Print WAIT, Wait Arrived, Print ARRIVE, IsSet Departed False,
                    Print MOVE, Sleep (1/2), Print LOC_entered,
                    IsSet LastCall False, Sleep (1/2), IsSet LastCall True, Print DEATH]"
    by (simp add: run_defs)
  from death_keeps_the_slot [OF run h] obtain i where
    i: "i < length (locations (shared example_thread))" "current_location (me s') = Some i"
      "count (locations (shared s') ! i) = count (locations (shared example_thread) ! i) + 1"
    by blast
  have len: "length (locations (shared s')) = 8"
    using more(6) by (auto dest: arg_cong [where f = length])
  have "i = 5"
  proof (rule ccontr)
    assume "i \<noteq> 5"
    with i(1) more(5) have "i \<in> {0, 1, 2, 3, 4, 6, 7}" by auto
    then have "count (locations (shared s') ! i) = 0"
      using more(6) len by (auto simp: nth_map [symmetric] simp del: nth_map)
    moreover have "count (locations (shared example_thread) ! i) = 0"
      using \<open>i \<in> {0, 1, 2, 3, 4, 6, 7}\<close>
      by (auto simp: example_thread_def world_init_def Island_locations_def Location_init_def)
    ultimately show False using i(3) by simp
  qed
  with i have "current_location (me s') = Some 5" "count (locations (shared s') ! 5) = 1"
    using more(4) by simp_all
  with run h more show ?thesis by blast
qed

subsection \<open>Passenger: further properties of the run\<close>

text \<open>
  X1. A thread whose passenger starts alive and at no location, and is alive when the
  thread returns, leaves every location as it was and the passenger at no location: each
  successful \<open>try_enter\<close> of the thread has been answered by one \<open>leave\<close>.
\<close>

theorem slot_released_unless_dead:
  assumes "Passenger_run env s = Inr s'"
    and "\<not> is_dead (me s)" and "current_location (me s) = None"
    and "\<not> is_dead (me s')"
  shows "locations (shared s') = locations (shared s) \<and> current_location (me s') = None"
proof (cases "ship (me s) = None")
  case True
  with assms(1) have "s' = s" by (simp add: Passenger_run_def)
  with assms(3) show ?thesis by simp
next
  case False
  let ?s0 = "say ARRIVE ((say WAIT s)\<lparr>trace := trace (say WAIT s) @ [Wait Arrived]\<rparr>)"
  from False assms(1,2) have run: "ashore (iters env) ?s0 = Inr s'"
    by (simp add: Passenger_run_def split: if_splits)
  have s0: "\<not> is_dead (me ?s0)" "current_location (me ?s0) = None"
    using assms(2,3) by simp_all
  from ashore_places [OF run s0] assms(4) show ?thesis by simp
qed

theorem slot_released_unless_dead_witness:
  "\<exists>s'. Passenger_run example_env example_thread = Inr s' \<and>
        \<not> is_dead (me example_thread) \<and> current_location (me example_thread) = None \<and>
        \<not> is_dead (me s') \<and> Print LOC_entered \<in> set (trace s') \<and>
        locations (shared s') = locations (shared example_thread) \<and>
        current_location (me s') = None"
proof -
  obtain s' where run: "Passenger_run example_env example_thread = Inr s'"
    and h: "\<not> is_dead (me example_thread)" "current_location (me example_thread) = None"
      "\<not> is_dead (me s')"
    and e: "Print LOC_entered \<in> set (trace s')"
    by (simp add: run_defs)
  from slot_released_unless_dead [OF run h] run h e show ?thesis by blast
qed

text \<open>
  X2. When the first evaluation of the loop's condition already sees the ship's departure,
  the passenger is added to the stranded registry and no counter changes: the counter
  \<open>stranded\<close> is incremented only in \<open>return_to_ship\<close>.
\<close>

theorem stranded_without_count:
  assumes "\<not> is_dead (me s)" and "\<not> on_board (me s)" and "ship (me s) \<noteq> None"
    and "arrives env" and "iters env = e # es" and "departed_head e"
  shows "\<exists>s'. Passenger_run env s = Inr s' \<and>
           stranded_passengers (shared s') = stranded_passengers (shared s) @ [me s] \<and>
           me s' = me s \<and>
           stats (shared s') = stats (shared s)"
  using assms by (simp add: Passenger_run_def after_loop_def)

theorem stranded_without_count_witness:
  "\<not> is_dead (me example_thread) \<and> \<not> on_board (me example_thread) \<and>
   ship (me example_thread) \<noteq> None \<and>
   arrives (example_env\<lparr>iters := [example_iter\<lparr>departed_head := True\<rparr>]\<rparr>) \<and>
   iters (example_env\<lparr>iters := [example_iter\<lparr>departed_head := True\<rparr>]\<rparr>) =
     example_iter\<lparr>departed_head := True\<rparr> # [] \<and>
   departed_head (example_iter\<lparr>departed_head := True\<rparr>) \<and>
   (\<exists>s'. Passenger_run (example_env\<lparr>iters := [example_iter\<lparr>departed_head := True\<rparr>]\<rparr>)
            example_thread = Inr s' \<and>
         stranded_passengers (shared s') = [example_passenger] \<and>
         stranded (stats (shared s')) = 0)"
proof -
  let ?env = "example_env\<lparr>iters := [example_iter\<lparr>departed_head := True\<rparr>]\<rparr>"
  have h: "\<not> is_dead (me example_thread)" "\<not> on_board (me example_thread)"
    "ship (me example_thread) \<noteq> None"
    by (simp_all add: example_thread_def example_passenger_def attach_to_ship_def Passenger_init_def)
  have a: "arrives ?env" by (simp add: example_env_def)
  have i: "iters ?env = example_iter\<lparr>departed_head := True\<rparr> # []" by simp
  have d: "departed_head (example_iter\<lparr>departed_head := True\<rparr>)" by simp
  have w: "stranded_passengers (shared example_thread) = []" "me example_thread = example_passenger"
    "stranded (stats (shared example_thread)) = 0"
    by (simp_all add: example_thread_def world_init_def stats_init_def)
  from stranded_without_count [OF h a i d] obtain s' where
    "Passenger_run ?env example_thread = Inr s'"
    "stranded_passengers (shared s') = stranded_passengers (shared example_thread) @ [me example_thread]"
    "stats (shared s') = stats (shared example_thread)"
    by blast
  with w have "\<exists>s'. Passenger_run ?env example_thread = Inr s' \<and>
         stranded_passengers (shared s') = [example_passenger] \<and>
         stranded (stats (shared s')) = 0"
    by simp
  with h a i d show ?thesis by blast
qed

text \<open>
  X3. The thread of a fresh passenger with fair observations on passable locations
  returns: it raises nothing and does not stay ashore for ever.
\<close>

theorem thread_returns:
  assumes "fresh (me s)" and "fair env" and "passable (locations (shared s))"
  shows "\<exists>s'. Passenger_run env s = Inr s'"
  using assms by (rule Passenger_run_total)

theorem thread_returns_witness:
  "fresh (me example_thread) \<and> fair late_env \<and> passable (locations (shared example_thread)) \<and>
   (\<exists>s'. Passenger_run late_env example_thread = Inr s')"
proof -
  have h: "fresh (me example_thread)" "fair late_env" "passable (locations (shared example_thread))"
    by (simp_all add: fresh_def fair_def recalled_def iter_in_range_def delays_in_range_def
        passable_def example_thread_def example_passenger_def attach_to_ship_def Passenger_init_def
        late_env_def example_iter_def example_stay_def world_init_def Island_locations_def
        Location_init_def)
  from thread_returns [OF h] h show ?thesis by blast
qed

text \<open>
  X4. When the thread of a passenger who starts alive, not on board and attached to a
  ship has returned, the passenger is in exactly one of three states: on board, and then
  alive and added to no registry; or neither on board nor dead, and then added once, at the
  end of the stranded registry; or dead, and then not on board and added once, at the end
  of the dead registry. The thread adds nobody else to a registry.
\<close>

theorem one_outcome_at_thread_end:
  assumes "Passenger_run env s = Inr s'" and "fresh (me s)"
  shows "\<not> (on_board (me s') \<and> is_dead (me s')) \<and>
         passenger_id (me s') = passenger_id (me s) \<and> ship_id (me s') = ship_id (me s) \<and>
         stranded_passengers (shared s') =
           stranded_passengers (shared s) @ [p \<leftarrow> [me s']. \<not> on_board p \<and> \<not> is_dead p] \<and>
         dead_passengers (shared s') = dead_passengers (shared s) @ [p \<leftarrow> [me s']. is_dead p]"
  using Passenger_run_settled [OF assms] by (simp add: settled_def)

theorem one_outcome_at_thread_end_witness:
  "\<exists>s'. Passenger_run fatal_env example_thread = Inr s' \<and> fresh (me example_thread) \<and>
        is_dead (me s') \<and> \<not> on_board (me s') \<and>
        stranded_passengers (shared s') = [] \<and> dead_passengers (shared s') = [me s']"
proof -
  have f: "fresh (me example_thread)"
    by (simp add: fresh_def example_thread_def example_passenger_def attach_to_ship_def
        Passenger_init_def)
  obtain s' where run: "Passenger_run fatal_env example_thread = Inr s'"
    and d: "is_dead (me s')"
    by (simp add: run_defs)
  have start: "stranded_passengers (shared example_thread) = []"
    "dead_passengers (shared example_thread) = []"
    by (simp_all add: example_thread_def world_init_def)
  from one_outcome_at_thread_end [OF run f] d start run f show ?thesis
    by (intro exI [of _ s']) simp
qed

end
